theory Spec2Isabelle
  imports
    Complex_Main
    "HOL-Library.Word"
    "HOL-Library.AList"
    "HOL-Library.Multiset"
    "HOL-Library.Char_ord"
    "HOL-Library.List_Lexorder"
begin

section \<open>Values, failures and the Go library\<close>

text \<open>
  \<^verbatim>\<open>main.go\<close> is built for \<^verbatim>\<open>GOARCH=amd64\<close> (Dockerfile), so a Go \<^verbatim>\<open>int\<close> is a
  64-bit two's complement integer. The word counts are kept in that type: \<open>+\<close> wraps.
  Lengths and slice indices are natural numbers: they are bounded by the length of a
  string held in memory and never wrap.
\<close>

type_synonym int64 = "64 word"

text \<open>
  A Go map \<^verbatim>\<open>map[string]int\<close> is an association list with distinct keys. The order of the
  list is the order of insertion and carries no meaning: \<^verbatim>\<open>json.Marshal\<close> sorts the keys.
\<close>

type_synonym count_map = "(string \<times> int64) list"

datatype panic = SliceBoundsOutOfRange | IntegerDivideByZero

datatype s3_error = NoSuchBucket | NoSuchKey | RequestRefused

text \<open>
  How a handler can end without its 200 answer: the 400 of the mode check, the 500 that
  carries the error of a download or an upload, and a run-time panic, which the
  recovery middleware of \<^verbatim>\<open>gin.Default()\<close> answers with a 500.
\<close>

datatype error = BadRequest string | StoreIOError s3_error | Panic panic

subsection \<open>Package strings\<close>

definition HasPrefix :: "string \<Rightarrow> string \<Rightarrow> bool" where
  "HasPrefix s p = (take (length p) s = p)"

definition TrimPrefix :: "string \<Rightarrow> string \<Rightarrow> string" where
  "TrimPrefix s p = (if HasPrefix s p then drop (length p) s else s)"

definition HasSuffix :: "string \<Rightarrow> string \<Rightarrow> bool" where
  "HasSuffix s p = (length p \<le> length s \<and> drop (length s - length p) s = p)"

definition TrimSuffix :: "string \<Rightarrow> string \<Rightarrow> string" where
  "TrimSuffix s p = (if HasSuffix s p then take (length s - length p) s else s)"

text \<open>\<^verbatim>\<open>strings.IndexByte\<close>: the index of the first occurrence, or \<open>-1\<close>.\<close>

fun IndexByte :: "string \<Rightarrow> char \<Rightarrow> int" where
  "IndexByte [] c = - 1"
| "IndexByte (x # xs) c =
     (if x = c then 0 else (let i = IndexByte xs c in if i < 0 then - 1 else i + 1))"

text \<open>
  The slice expression \<^verbatim>\<open>xs[lo:hi]\<close> of a string, or of a slice whose capacity is its
  length (what \<^verbatim>\<open>strings.Split\<close> returns): it panics unless \<open>lo \<le> hi \<le> len(xs)\<close>.
\<close>

definition slice :: "'a list \<Rightarrow> nat \<Rightarrow> nat \<Rightarrow> panic + 'a list" where
  "slice xs lo hi =
     (if lo \<le> hi \<and> hi \<le> length xs then Inr (take (hi - lo) (drop lo xs))
      else Inl SliceBoundsOutOfRange)"

text \<open>\<^verbatim>\<open>strings.Split(s, sep)\<close> and \<^verbatim>\<open>strings.Join(ls, sep)\<close> for a separator of one byte.\<close>

fun Split :: "string \<Rightarrow> char \<Rightarrow> string list" where
  "Split [] sep = [[]]"
| "Split (c # cs) sep =
     (if c = sep then [] # Split cs sep
      else (case Split cs sep of [] \<Rightarrow> [[c]] | l # ls \<Rightarrow> (c # l) # ls))"

fun Join :: "string list \<Rightarrow> string \<Rightarrow> string" where
  "Join [] sep = []"
| "Join [l] sep = l"
| "Join (l # ls) sep = l @ sep @ Join ls sep"

abbreviation newline :: char where
  "newline \<equiv> CHR 0x0A"

text \<open>The verb \<^verbatim>\<open>%d\<close> of \<^verbatim>\<open>fmt.Sprintf\<close> on a non-negative integer.\<close>

function Itoa :: "nat \<Rightarrow> string" where
  "Itoa n = (if n < 10 then [char_of (48 + n)] else Itoa (n div 10) @ [char_of (48 + n mod 10)])"
  by pat_completeness auto
termination
  by (relation "measure id") auto

declare Itoa.simps [simp del]

definition isUpper :: "char \<Rightarrow> bool" where
  "isUpper c = (CHR ''A'' \<le> c \<and> c \<le> CHR ''Z'')"

definition lower_byte :: "char \<Rightarrow> char" where
  "lower_byte c = (if isUpper c then char_of (of_char c + (32 :: nat)) else c)"

definition isASCII :: "string \<Rightarrow> bool" where
  "isASCII s = list_all (\<lambda>c. of_char c < (128 :: nat)) s"

subsection \<open>What the model takes from the Go library as a parameter\<close>

text \<open>
  Three library functions are not computed by the model but handed to it:
  \<^item> \<open>ToLower_unicode\<close>: what \<^verbatim>\<open>strings.ToLower\<close> returns for a string with a byte above
    0x7F, where it decodes UTF-8 and maps every rune through the Unicode case tables;
  \<^item> \<open>Marshal\<close>: \<^verbatim>\<open>json.Marshal\<close> of a \<^verbatim>\<open>map[string]int\<close>;
  \<^item> \<open>Unmarshal\<close>: \<^verbatim>\<open>json.Unmarshal\<close> into a \<^verbatim>\<open>map[string]int\<close>, as the members it
    assigns in document order and whether it returns an error.
  The theorems hold for every choice of the three.
\<close>

record golib =
  ToLower_unicode :: "string \<Rightarrow> string"
  Marshal :: "count_map \<Rightarrow> string"
  Unmarshal :: "string \<Rightarrow> (string \<times> int64) list \<times> bool"

text \<open>\<^verbatim>\<open>strings.ToLower\<close>: byte by byte on an ASCII string, through the tables otherwise.\<close>

definition ToLower :: "golib \<Rightarrow> string \<Rightarrow> string" where
  "ToLower lib s = (if isASCII s then map lower_byte s else ToLower_unicode lib s)"

subsection \<open>Package regexp\<close>

definition isAlnum :: "char \<Rightarrow> bool" where
  "isAlnum c =
     ((CHR ''A'' \<le> c \<and> c \<le> CHR ''Z'') \<or> (CHR ''a'' \<le> c \<and> c \<le> CHR ''z'') \<or>
      (CHR ''0'' \<le> c \<and> c \<le> CHR ''9''))"

text \<open>
  \<^verbatim>\<open>regexp.MustCompile(`[A-Za-z0-9]+`).FindAllString(s, -1)\<close>: the successive leftmost
  matches, each as long as possible, that is the maximal runs of letters and digits.
  \<open>runs cur s\<close> scans \<open>s\<close> with the run \<open>cur\<close> open.
\<close>

fun runs :: "string \<Rightarrow> string \<Rightarrow> string list" where
  "runs cur [] = (if cur = [] then [] else [cur])"
| "runs cur (c # cs) =
     (if isAlnum c then runs (cur @ [c]) cs
      else if cur = [] then runs [] cs
      else cur # runs [] cs)"

definition FindAllString :: "string \<Rightarrow> string list" where
  "FindAllString s = runs [] s"

text \<open>
  The maximal runs of letters and digits, said without the scan: every byte that is no
  letter and no digit is a separator, \<open>pieces\<close> cuts the text at the separators, and the
  runs are the pieces that are not empty.
\<close>

fun pieces :: "string \<Rightarrow> string list" where
  "pieces [] = [[]]"
| "pieces (c # cs) =
     (if isAlnum c then (case pieces cs of [] \<Rightarrow> [[c]] | p # ps \<Rightarrow> (c # p) # ps)
      else [] # pieces cs)"

definition maximal_runs :: "string \<Rightarrow> string list" where
  "maximal_runs s = filter (\<lambda>p. p \<noteq> []) (pieces s)"

subsection \<open>The blob store\<close>

text \<open>
  S3 as the handlers see it through the downloader and the uploader: buckets of objects,
  the requests issued so far, and the requests that the store refuses whatever it holds
  (no permission, no connection). A download fails when it is refused or the bucket or
  the key does not exist, an upload when it is refused or the bucket does not exist.
\<close>

datatype s3_request = GetObject string string | PutObject string string string

record store =
  buckets :: "string \<rightharpoonup> (string \<rightharpoonup> string)"
  requests :: "s3_request list"
  refuses :: "s3_request \<Rightarrow> bool"

definition Download :: "string \<Rightarrow> string \<Rightarrow> store \<Rightarrow> (error + string) \<times> store" where
  "Download bucket key st =
     (let st' = st\<lparr>requests := requests st @ [GetObject bucket key]\<rparr> in
      if refuses st (GetObject bucket key) then (Inl (StoreIOError RequestRefused), st')
      else (case buckets st bucket of
              None \<Rightarrow> (Inl (StoreIOError NoSuchBucket), st')
            | Some objs \<Rightarrow>
                (case objs key of
                   None \<Rightarrow> (Inl (StoreIOError NoSuchKey), st')
                 | Some body \<Rightarrow> (Inr body, st'))))"

definition Upload :: "string \<Rightarrow> string \<Rightarrow> string \<Rightarrow> store \<Rightarrow> (error + unit) \<times> store" where
  "Upload bucket key body st =
     (let st' = st\<lparr>requests := requests st @ [PutObject bucket key body]\<rparr> in
      if refuses st (PutObject bucket key body) then (Inl (StoreIOError RequestRefused), st')
      else (case buckets st bucket of
              None \<Rightarrow> (Inl (StoreIOError NoSuchBucket), st')
            | Some objs \<Rightarrow> (Inr (), st'\<lparr>buckets := (buckets st)(bucket \<mapsto> objs(key \<mapsto> body))\<rparr>)))"

subsection \<open>The query string of a request\<close>

type_synonym query = "(string \<times> string) list"

text \<open>\<^verbatim>\<open>c.Query(key)\<close>: the first value of the key, or the empty string.\<close>

definition Query :: "query \<Rightarrow> string \<Rightarrow> string" where
  "Query q k = (case map_of q k of None \<Rightarrow> [] | Some v \<Rightarrow> v)"

text \<open>\<^verbatim>\<open>c.QueryArray(key)\<close>: every value of the key, in order.\<close>

definition QueryArray :: "query \<Rightarrow> string \<Rightarrow> string list" where
  "QueryArray q k = map snd (filter (\<lambda>kv. fst kv = k) q)"

section \<open>main.go\<close>

subsection \<open>parseS3\<close>

text \<open>
  \<^verbatim>\<open>trim[:i]\<close> panics when \<^verbatim>\<open>IndexByte\<close> found no \<^verbatim>\<open>/\<close> and returned \<open>-1\<close>.
\<close>

definition parseS3 :: "string \<Rightarrow> panic + (string \<times> string)" where
  "parseS3 url =
     (let trim = TrimPrefix url ''s3://'';
          i = IndexByte trim CHR ''/''
      in if i < 0 then Inl SliceBoundsOutOfRange
         else (case slice trim 0 (nat i) of
                 Inl p \<Rightarrow> Inl p
               | Inr bucket \<Rightarrow>
                   (case slice trim (nat i + 1) (length trim) of
                      Inl p \<Rightarrow> Inl p
                    | Inr key \<Rightarrow> Inr (bucket, key))))"

subsection \<open>The splitter\<close>

text \<open>The key and the address of chunk \<open>i\<close> (lines 97 and 111).\<close>

definition chunk_key :: "string \<Rightarrow> nat \<Rightarrow> string" where
  "chunk_key prefix i = TrimSuffix prefix ''/'' @ ''/'' @ ''chunk-'' @ Itoa i @ ''.txt''"

definition chunk_url :: "string \<Rightarrow> string \<Rightarrow> nat \<Rightarrow> string" where
  "chunk_url bucket prefix i = ''s3://'' @ bucket @ ''/'' @ chunk_key prefix i"

text \<open>The lines of chunk \<open>i\<close>: \<^verbatim>\<open>lines[start:end]\<close> with \<^verbatim>\<open>end\<close> clamped (lines 89 to 94).\<close>

definition chunk_lines :: "string list \<Rightarrow> nat \<Rightarrow> nat \<Rightarrow> panic + string list" where
  "chunk_lines lines chunkSize i =
     (let start = i * chunkSize;
          end0 = (i + 1) * chunkSize;
          end1 = (if end0 > length lines then length lines else end0)
      in slice lines start end1)"

text \<open>
  The loop of lines 88 to 112 over the indices still to do: a panic or a failed upload
  ends the call at once and leaves the chunks already uploaded in the store.
\<close>

fun split_chunks ::
  "string \<Rightarrow> string \<Rightarrow> string list \<Rightarrow> nat \<Rightarrow> nat list \<Rightarrow> string list \<Rightarrow> store \<Rightarrow>
   (error + string list) \<times> store" where
  "split_chunks bucket prefix lines chunkSize [] urls st = (Inr urls, st)"
| "split_chunks bucket prefix lines chunkSize (i # is) urls st =
     (case chunk_lines lines chunkSize i of
        Inl p \<Rightarrow> (Inl (Panic p), st)
      | Inr ls \<Rightarrow>
          (case Upload bucket (chunk_key prefix i) (Join ls [newline]) st of
             (Inl e, st') \<Rightarrow> (Inl e, st')
           | (Inr u, st') \<Rightarrow>
               split_chunks bucket prefix lines chunkSize is
                 (urls @ [chunk_url bucket prefix i]) st'))"

text \<open>
  Lines 86 to 113 for a part count \<open>parts\<close>. The division panics for \<open>parts = 0\<close>; the
  handler below always passes 3.
\<close>

definition split_lines ::
  "string \<Rightarrow> string \<Rightarrow> string list \<Rightarrow> nat \<Rightarrow> store \<Rightarrow> (error + string list) \<times> store" where
  "split_lines bucket prefix lines parts st =
     (if parts = 0 then (Inl (Panic IntegerDivideByZero), st)
      else (let chunkSize = (length lines + parts - 1) div parts
            in split_chunks bucket prefix lines chunkSize [0..<parts] [] st))"

text \<open>
  The handler of \<^verbatim>\<open>/split\<close>. It reads \<^verbatim>\<open>input_s3\<close> and \<^verbatim>\<open>out_prefix\<close> from the query;
  \<^verbatim>\<open>parts\<close> is the constant 3 whatever the query holds (line 63).
\<close>

definition split_handler :: "string \<Rightarrow> query \<Rightarrow> store \<Rightarrow> (error + string list) \<times> store" where
  "split_handler mode q st =
     (if mode \<noteq> ''splitter'' then (Inl (BadRequest ''This task is not a splitter''), st)
      else (let input = Query q ''input_s3'';
                parts = 3;
                prefix = Query q ''out_prefix''
            in case parseS3 input of
                 Inl p \<Rightarrow> (Inl (Panic p), st)
               | Inr (bucket, key) \<Rightarrow>
                   (case Download bucket key st of
                      (Inl e, st') \<Rightarrow> (Inl e, st')
                    | (Inr content, st') \<Rightarrow>
                        split_lines bucket prefix (Split content newline) parts st')))"

subsection \<open>The mapper\<close>

text \<open>\<^verbatim>\<open>m[k]\<close> on a Go map: the zero value for a key that is absent.\<close>

definition lookup0 :: "count_map \<Rightarrow> string \<Rightarrow> int64" where
  "lookup0 m k = (case map_of m k of None \<Rightarrow> 0 | Some v \<Rightarrow> v)"

text \<open>\<^verbatim>\<open>counts[w]++\<close> for every word (lines 146 to 150).\<close>

definition count_words :: "string list \<Rightarrow> count_map" where
  "count_words ws = foldl (\<lambda>counts w. AList.update w (lookup0 counts w + 1) counts) [] ws"

definition map_counts :: "golib \<Rightarrow> string \<Rightarrow> count_map" where
  "map_counts lib text = count_words (FindAllString (ToLower lib text))"

definition map_handler :: "golib \<Rightarrow> string \<Rightarrow> query \<Rightarrow> store \<Rightarrow> (error + string) \<times> store" where
  "map_handler lib mode q st =
     (if mode \<noteq> ''mapper'' then (Inl (BadRequest ''This task is not a mapper''), st)
      else (let chunkS3 = Query q ''chunk_s3'';
                outS3 = Query q ''out_s3''
            in case parseS3 chunkS3 of
                 Inl p \<Rightarrow> (Inl (Panic p), st)
               | Inr (bucket, key) \<Rightarrow>
                   (case Download bucket key st of
                      (Inl e, st') \<Rightarrow> (Inl e, st')
                    | (Inr text, st') \<Rightarrow>
                        (let js = Marshal lib (map_counts lib text)
                         in case parseS3 outS3 of
                              Inl p \<Rightarrow> (Inl (Panic p), st')
                            | Inr (outBucket, outKey) \<Rightarrow>
                                (case Upload outBucket outKey js st' of
                                   (Inl e, st'') \<Rightarrow> (Inl e, st'')
                                 | (Inr u, st'') \<Rightarrow> (Inr outS3, st''))))))"

subsection \<open>The reducer\<close>

text \<open>
  \<^verbatim>\<open>m := map[string]int{}; json.Unmarshal(buf.Bytes(), &m)\<close> (lines 197 and 198): the map
  after the call. The error that \<^verbatim>\<open>Unmarshal\<close> returns is not looked at.
\<close>

definition decode_partial :: "golib \<Rightarrow> string \<Rightarrow> count_map" where
  "decode_partial lib body = foldl (\<lambda>m kv. AList.update (fst kv) (snd kv) m) [] (fst (Unmarshal lib body))"

text \<open>\<^verbatim>\<open>for k, v := range m { total[k] += v }\<close> (lines 200 to 202).\<close>

definition add_counts :: "count_map \<Rightarrow> count_map \<Rightarrow> count_map" where
  "add_counts tot m = foldl (\<lambda>t kv. AList.update (fst kv) (lookup0 t (fst kv) + snd kv) t) tot m"

text \<open>The loop of lines 185 to 203 over the addresses still to read.\<close>

fun reduce_inputs :: "golib \<Rightarrow> string list \<Rightarrow> count_map \<Rightarrow> store \<Rightarrow> (error + count_map) \<times> store" where
  "reduce_inputs lib [] tot st = (Inr tot, st)"
| "reduce_inputs lib (inp # inputs) tot st =
     (case parseS3 inp of
        Inl p \<Rightarrow> (Inl (Panic p), st)
      | Inr (bucket, key) \<Rightarrow>
          (case Download bucket key st of
             (Inl e, st') \<Rightarrow> (Inl e, st')
           | (Inr body, st') \<Rightarrow>
               reduce_inputs lib inputs (add_counts tot (decode_partial lib body)) st'))"

definition reduce_handler :: "golib \<Rightarrow> string \<Rightarrow> query \<Rightarrow> store \<Rightarrow> (error + string) \<times> store" where
  "reduce_handler lib mode q st =
     (if mode \<noteq> ''reducer'' then (Inl (BadRequest ''This task is not a reducer''), st)
      else (let inputs = QueryArray q ''in'';
                outS3 = Query q ''out_s3''
            in case reduce_inputs lib inputs [] st of
                 (Inl e, st') \<Rightarrow> (Inl e, st')
               | (Inr tot, st') \<Rightarrow>
                   (let js = Marshal lib tot
                    in case parseS3 outS3 of
                         Inl p \<Rightarrow> (Inl (Panic p), st')
                       | Inr (outBucket, outKey) \<Rightarrow>
                           (case Upload outBucket outKey js st' of
                              (Inl e, st'') \<Rightarrow> (Inl e, st'')
                            | (Inr u, st'') \<Rightarrow> (Inr outS3, st'')))))"

section \<open>An instance of the library parameters\<close>

text \<open>
  For computing the handlers on concrete requests. \<open>compact_Marshal\<close> writes an object as
  \<^verbatim>\<open>json.Marshal\<close> does when the keys are ASCII letters and digits: keys in byte order,
  no white space. \<open>compact_Unmarshal\<close> reads that compact form; anything else it reports
  as an error with no member assigned, which is what \<^verbatim>\<open>json.Unmarshal\<close> does for bytes
  that are not JSON. \<open>lower_kelvin\<close> lowers the ASCII letters and the Kelvin sign U+212A
  (bytes E2 84 AA), which the Unicode tables map to the letter k, and copies every other
  byte.
\<close>

abbreviation dquote :: char where
  "dquote \<equiv> CHR 0x22"

definition show_int64 :: "int64 \<Rightarrow> string" where
  "show_int64 v = (if sint v < 0 then ''-'' @ Itoa (nat (- sint v)) else Itoa (nat (sint v)))"

definition compact_member :: "string \<times> int64 \<Rightarrow> string" where
  "compact_member kv = [dquote] @ fst kv @ [dquote] @ '':'' @ show_int64 (snd kv)"

definition compact_Marshal :: "count_map \<Rightarrow> string" where
  "compact_Marshal m = ''{'' @ Join (map compact_member (sort_key fst m)) '','' @ ''}''"

datatype scan =
  Begin | KeyOrEnd | NextKey | InKey string | Colon string | Value string
  | Minus string | Zero string | Digits string bool int | Finished | Invalid

definition isDigit :: "char \<Rightarrow> bool" where
  "isDigit c = (CHR ''0'' \<le> c \<and> c \<le> CHR ''9'')"

definition digit_val :: "char \<Rightarrow> int" where
  "digit_val c = of_char c - 48"

text \<open>
  The end of a number: a value outside the range of \<^verbatim>\<open>int\<close> leaves the zero value under
  the key and makes the call return an error.
\<close>

definition close_number ::
  "string \<Rightarrow> bool \<Rightarrow> int \<Rightarrow> (string \<times> int64) list \<times> bool \<Rightarrow> (string \<times> int64) list \<times> bool" where
  "close_number key neg n r =
     (if neg \<and> n \<le> 2 ^ 63 then (fst r @ [(key, - of_int n)], snd r)
      else if \<not> neg \<and> n < 2 ^ 63 then (fst r @ [(key, of_int n)], snd r)
      else (fst r @ [(key, 0)], True))"

fun scan_step ::
  "scan \<times> (string \<times> int64) list \<times> bool \<Rightarrow> char \<Rightarrow> scan \<times> (string \<times> int64) list \<times> bool" where
  "scan_step (Begin, r) c = (if c = CHR ''{'' then (KeyOrEnd, r) else (Invalid, r))"
| "scan_step (KeyOrEnd, r) c =
     (if c = dquote then (InKey [], r) else if c = CHR ''}'' then (Finished, r) else (Invalid, r))"
| "scan_step (NextKey, r) c = (if c = dquote then (InKey [], r) else (Invalid, r))"
| "scan_step (InKey k, r) c =
     (if c = dquote then (Colon k, r)
      else if c = CHR 0x5C \<or> of_char c < (32 :: nat) then (Invalid, r)
      else (InKey (k @ [c]), r))"
| "scan_step (Colon k, r) c = (if c = CHR '':'' then (Value k, r) else (Invalid, r))"
| "scan_step (Value k, r) c =
     (if c = CHR ''-'' then (Minus k, r)
      else if c = CHR ''0'' then (Zero k, close_number k False 0 r)
      else if isDigit c then (Digits k False (digit_val c), r)
      else (Invalid, r))"
| "scan_step (Minus k, r) c =
     (if c = CHR ''0'' then (Zero k, close_number k True 0 r)
      else if isDigit c then (Digits k True (digit_val c), r)
      else (Invalid, r))"
| "scan_step (Zero k, r) c =
     (if c = CHR '','' then (NextKey, r) else if c = CHR ''}'' then (Finished, r) else (Invalid, r))"
| "scan_step (Digits k neg n, r) c =
     (if isDigit c then (Digits k neg (10 * n + digit_val c), r)
      else if c = CHR '','' then (NextKey, close_number k neg n r)
      else if c = CHR ''}'' then (Finished, close_number k neg n r)
      else (Invalid, r))"
| "scan_step (Finished, r) c = (Invalid, r)"
| "scan_step (Invalid, r) c = (Invalid, r)"

definition compact_Unmarshal :: "string \<Rightarrow> (string \<times> int64) list \<times> bool" where
  "compact_Unmarshal body =
     (case foldl scan_step (Begin, [], False) body of
        (Finished, r) \<Rightarrow> r
      | (other, r) \<Rightarrow> ([], True))"

fun lower_kelvin :: "string \<Rightarrow> string" where
  "lower_kelvin (a # b # c # s) =
     (if a = CHR 0xE2 \<and> b = CHR 0x84 \<and> c = CHR 0xAA then CHR ''k'' # lower_kelvin s
      else lower_byte a # lower_kelvin (b # c # s))"
| "lower_kelvin s = map lower_byte s"

definition compact_lib :: golib where
  "compact_lib = \<lparr>ToLower_unicode = lower_kelvin, Marshal = compact_Marshal, Unmarshal = compact_Unmarshal\<rparr>"

section \<open>Reading the store, and stores for the examples\<close>

definition object_at :: "store \<Rightarrow> string \<Rightarrow> string \<Rightarrow> string option" where
  "object_at st bucket key = (case buckets st bucket of None \<Rightarrow> None | Some objs \<Rightarrow> objs key)"

definition empty_store :: store where
  "empty_store = \<lparr>buckets = Map.empty, requests = [], refuses = (\<lambda>r. False)\<rparr>"

text \<open>A store that holds one object, has answered no request yet and refuses none.\<close>

definition store_with :: "string \<Rightarrow> string \<Rightarrow> string \<Rightarrow> store" where
  "store_with bucket key body =
     \<lparr>buckets = [bucket \<mapsto> [key \<mapsto> body]], requests = [], refuses = (\<lambda>r. False)\<rparr>"

text \<open>An object that a download cannot get.\<close>

definition unreadable :: "store \<Rightarrow> string \<Rightarrow> string \<Rightarrow> bool" where
  "unreadable st bucket key \<longleftrightarrow> refuses st (GetObject bucket key) \<or> object_at st bucket key = None"

text \<open>A store that holds the given objects in one bucket, has answered no request yet and refuses none.\<close>

definition store_of :: "string \<Rightarrow> (string \<times> string) list \<Rightarrow> store" where
  "store_of bucket objs = \<lparr>buckets = [bucket \<mapsto> map_of objs], requests = [], refuses = (\<lambda>r. False)\<rparr>"

text \<open>
  The partial CountMap that one turn of the loop of \<^verbatim>\<open>/reduce\<close> (lines 185 to 203) gets for the
  address \<open>inp\<close>: the address is parsed, the object downloaded and its body decoded into a
  fresh map. There is none when the address does not parse or the download fails.
\<close>

definition partial_at :: "golib \<Rightarrow> store \<Rightarrow> string \<Rightarrow> count_map option" where
  "partial_at lib st inp =
     (case parseS3 inp of
        Inl p \<Rightarrow> None
      | Inr (bucket, key) \<Rightarrow>
          (case fst (Download bucket key st) of
             Inl e \<Rightarrow> None
           | Inr body \<Rightarrow> Some (decode_partial lib body)))"

text \<open>
  The example text of one line, a store that holds it as chunk 0 next to an empty chunk 1,
  and three calls one after the other on that store: \<^verbatim>\<open>/map\<close> of chunk 0, \<^verbatim>\<open>/map\<close> of chunk 1,
  \<^verbatim>\<open>/reduce\<close> of the two partials.
\<close>

definition king_text :: string where
  "king_text = ''The king. The king is dead. Long live the king!''"

definition king_chunks :: store where
  "king_chunks = store_of ''bkt'' [(''splits/chunk-0.txt'', king_text), (''splits/chunk-1.txt'', [])]"

definition king_map0 :: "(error + string) \<times> store" where
  "king_map0 = map_handler compact_lib ''mapper''
     [(''chunk_s3'', ''s3://bkt/splits/chunk-0.txt''), (''out_s3'', ''s3://bkt/maps/map-0.json'')]
     king_chunks"

definition king_map1 :: "(error + string) \<times> store" where
  "king_map1 = map_handler compact_lib ''mapper''
     [(''chunk_s3'', ''s3://bkt/splits/chunk-1.txt''), (''out_s3'', ''s3://bkt/maps/map-1.json'')]
     (snd king_map0)"

definition king_reduce :: "(error + string) \<times> store" where
  "king_reduce = reduce_handler compact_lib ''reducer''
     [(''in'', ''s3://bkt/maps/map-0.json''), (''in'', ''s3://bkt/maps/map-1.json''),
      (''out_s3'', ''s3://bkt/reduce/final.json'')]
     (snd king_map1)"

text \<open>The total of the reducer once the loop of lines 185 to 203 has added the partials \<open>ms\<close>.\<close>

definition reduce_total :: "count_map list \<Rightarrow> count_map" where
  "reduce_total ms = foldl add_counts [] ms"

text \<open>A request that writes nothing.\<close>

definition isGet :: "s3_request \<Rightarrow> bool" where
  "isGet r = (case r of GetObject b k \<Rightarrow> True | PutObject b k body \<Rightarrow> False)"

text \<open>The lines of chunk \<open>i\<close> when the slice expression does not panic.\<close>

definition the_chunk :: "string list \<Rightarrow> nat \<Rightarrow> nat \<Rightarrow> string list" where
  "the_chunk lines chunkSize i =
     take (min ((i + 1) * chunkSize) (length lines) - i * chunkSize) (drop (i * chunkSize) lines)"

section \<open>Basic facts\<close>

lemma slice_Inr_iff: "slice xs lo hi = Inr ys \<longleftrightarrow> lo \<le> hi \<and> hi \<le> length xs \<and> ys = take (hi - lo) (drop lo xs)"
  by (auto simp: slice_def)

subsection \<open>Addresses\<close>

lemma IndexByte_neg_iff: "IndexByte s c < 0 \<longleftrightarrow> c \<notin> set s"
  by (induction s) (auto simp: Let_def)

lemma IndexByte_bounds: "IndexByte s c < int (length s)"
  by (induction s) (auto simp: Let_def)

lemma IndexByte_split:
  "0 \<le> IndexByte s c \<Longrightarrow>
     s = take (nat (IndexByte s c)) s @ c # drop (nat (IndexByte s c) + 1) s \<and>
     c \<notin> set (take (nat (IndexByte s c)) s)"
proof (induction s)
  case Nil
  then show ?case by simp
next
  case (Cons x xs)
  show ?case
  proof (cases "x = c")
    case True
    then show ?thesis by simp
  next
    case False
    with Cons.prems have nn: "0 \<le> IndexByte xs c"
      by (auto simp: Let_def split: if_splits)
    with False have eq: "IndexByte (x # xs) c = IndexByte xs c + 1"
      by (simp add: Let_def)
    from nn have n: "nat (IndexByte xs c + 1) = Suc (nat (IndexByte xs c))" by simp
    from Cons.IH [OF nn] False show ?thesis
      unfolding eq n by simp
  qed
qed

lemma IndexByte_append:
  "c \<notin> set b \<Longrightarrow> IndexByte (b @ c # k) c = int (length b)"
  by (induction b) (auto simp: Let_def)

lemma parseS3_Inl_iff:
  "parseS3 url = Inl p \<longleftrightarrow> p = SliceBoundsOutOfRange \<and> CHR ''/'' \<notin> set (TrimPrefix url ''s3://'')"
proof -
  let ?t = "TrimPrefix url ''s3://''"
  let ?i = "IndexByte ?t CHR ''/''"
  have lt: "?i < int (length ?t)" by (rule IndexByte_bounds)
  show ?thesis
  proof (cases "?i < 0")
    case True
    then show ?thesis
      by (auto simp: parseS3_def Let_def IndexByte_neg_iff)
  next
    case False
    with lt have "nat ?i \<le> length ?t" "nat ?i + 1 \<le> length ?t" by linarith+
    with False show ?thesis
      by (auto simp: parseS3_def Let_def slice_def IndexByte_neg_iff)
  qed
qed

lemma parseS3_Inr:
  assumes "parseS3 url = Inr (bucket, key)"
  shows "TrimPrefix url ''s3://'' = bucket @ CHR ''/'' # key" and "CHR ''/'' \<notin> set bucket"
proof -
  let ?t = "TrimPrefix url ''s3://''"
  let ?i = "IndexByte ?t CHR ''/''"
  from assms have nn: "0 \<le> ?i"
    by (auto simp: parseS3_def Let_def split: if_splits)
  from assms nn have b: "bucket = take (nat ?i) ?t" and k: "key = drop (nat ?i + 1) ?t"
    by (auto simp: parseS3_def Let_def slice_def split: if_splits sum.splits)
  from IndexByte_split [OF nn] show "?t = bucket @ CHR ''/'' # key" and "CHR ''/'' \<notin> set bucket"
    unfolding b k by simp_all
qed

lemma TrimPrefix_append: "TrimPrefix (p @ s) p = s"
  by (simp add: TrimPrefix_def HasPrefix_def)

lemma parseS3_address:
  "CHR ''/'' \<notin> set bucket \<Longrightarrow> parseS3 (''s3://'' @ bucket @ ''/'' @ key) = Inr (bucket, key)"
proof -
  assume nb: "CHR ''/'' \<notin> set bucket"
  have t: "TrimPrefix (''s3://'' @ bucket @ ''/'' @ key) ''s3://'' = bucket @ CHR ''/'' # key"
    using TrimPrefix_append [of "''s3://''" "bucket @ ''/'' @ key"] by simp
  show ?thesis
    unfolding parseS3_def t Let_def IndexByte_append [OF nb]
    by (simp add: slice_def)
qed

subsection \<open>The store\<close>

lemma object_at_requests [simp]: "object_at (st\<lparr>requests := rs\<rparr>) bucket key = object_at st bucket key"
  by (simp add: object_at_def)

lemma unreadable_requests [simp]: "unreadable (st\<lparr>requests := rs\<rparr>) bucket key = unreadable st bucket key"
  by (simp add: unreadable_def)

lemma Download_store:
  "snd (Download bucket key st) = st\<lparr>requests := requests st @ [GetObject bucket key]\<rparr>"
  by (simp add: Download_def Let_def split: option.splits)

lemma Download_cases:
  obtains (missing) x where "unreadable st bucket key"
      "Download bucket key st = (Inl (StoreIOError x), st\<lparr>requests := requests st @ [GetObject bucket key]\<rparr>)"
  | (found) body where "\<not> refuses st (GetObject bucket key)" "object_at st bucket key = Some body"
      "Download bucket key st = (Inr body, st\<lparr>requests := requests st @ [GetObject bucket key]\<rparr>)"
  by (cases "refuses st (GetObject bucket key)"; cases "buckets st bucket"; cases "object_at st bucket key")
     (auto simp: Download_def object_at_def unreadable_def Let_def split: option.splits)

lemma Upload_cases:
  obtains (denied) x where
      "Upload bucket key body st =
         (Inl (StoreIOError x), st\<lparr>requests := requests st @ [PutObject bucket key body]\<rparr>)"
  | (stored) objs where "\<not> refuses st (PutObject bucket key body)" "buckets st bucket = Some objs"
      "Upload bucket key body st =
         (Inr (), st\<lparr>buckets := (buckets st)(bucket \<mapsto> objs(key \<mapsto> body)),
                     requests := requests st @ [PutObject bucket key body]\<rparr>)"
  by (cases "refuses st (PutObject bucket key body)"; cases "buckets st bucket")
     (auto simp: Upload_def Let_def)

lemma chunk_lines_Inr_iff:
  "chunk_lines lines cs i = Inr ls \<longleftrightarrow> i * cs \<le> length lines \<and> ls = the_chunk lines cs i"
  by (auto simp: chunk_lines_def the_chunk_def slice_def Let_def min_def)

lemma chunk_lines_Inl_iff:
  "chunk_lines lines cs i = Inl p \<longleftrightarrow> length lines < i * cs \<and> p = SliceBoundsOutOfRange"
  by (auto simp: chunk_lines_def the_chunk_def slice_def Let_def min_def)

lemma split_chunks_Inr:
  "split_chunks bucket prefix lines cs is urls st = (Inr urls', st') \<Longrightarrow>
     urls' = urls @ map (chunk_url bucket prefix) is \<and>
     list_all (\<lambda>i. i * cs \<le> length lines) is \<and>
     requests st' = requests st @
       map (\<lambda>i. PutObject bucket (chunk_key prefix i) (Join (the_chunk lines cs i) [newline])) is"
proof (induction "is" arbitrary: urls st)
  case Nil
  then show ?case by simp
next
  case (Cons i "is")
  from Cons.prems obtain ls where ls: "chunk_lines lines cs i = Inr ls"
    by (auto split: sum.splits)
  then have i: "i * cs \<le> length lines" and ls': "ls = the_chunk lines cs i"
    by (simp_all add: chunk_lines_Inr_iff)
  show ?case
  proof (cases rule: Upload_cases [of bucket "chunk_key prefix i" "Join ls [newline]" st])
    case denied
    with Cons.prems ls show ?thesis by simp
  next
    case (stored objs)
    with Cons.prems ls have
      "split_chunks bucket prefix lines cs is (urls @ [chunk_url bucket prefix i])
         (st\<lparr>buckets := (buckets st)(bucket \<mapsto> objs(chunk_key prefix i \<mapsto> Join ls [newline])),
            requests := requests st @ [PutObject bucket (chunk_key prefix i) (Join ls [newline])]\<rparr>)
       = (Inr urls', st')"
      by simp
    from Cons.IH [OF this] i ls' show ?thesis by simp
  qed
qed

subsection \<open>Ceiling division\<close>

lemma mult_ceil_ge:
  assumes "0 < P"
  shows "(L::nat) \<le> P * ((L + P - 1) div P)"
proof -
  let ?n = "L + P - 1"
  have "?n = P * (?n div P) + ?n mod P" by simp
  moreover from assms have "?n mod P < P" by simp
  ultimately show ?thesis using assms by linarith
qed

lemma mult_ceil_lt:
  assumes "0 < P"
  shows "P * ((L + P - 1) div P) < (L::nat) + P"
proof -
  have "P * ((L + P - 1) div P) \<le> L + P - 1" by simp
  with assms show ?thesis by linarith
qed

lemma ceiling_chunkSize:
  assumes "0 < P"
  shows "int ((L + P - 1) div P) = \<lceil>real L / real P\<rceil>"
proof -
  let ?c = "(L + P - 1) div P"
  from assms have P: "0 < real P" by simp
  have "real L \<le> real (P * ?c)"
    using mult_ceil_ge [OF assms, of L] by (simp only: of_nat_le_iff)
  then have up: "real L / real P \<le> of_int (int ?c)"
    using P by (simp add: pos_divide_le_eq mult.commute)
  have "real (P * ?c) < real (L + P)"
    using mult_ceil_lt [OF assms, of L] by (simp only: of_nat_less_iff)
  then have "real ?c * real P - real P < real L"
    by (simp add: mult.commute)
  then have "(real ?c - 1) * real P < real L"
    by (simp add: algebra_simps)
  then have lo: "of_int (int ?c) - 1 < real L / real P"
    using P by (simp add: pos_less_divide_eq)
  from lo up have "\<lceil>real L / real P\<rceil> = int ?c"
    by (rule ceiling_unique)
  then show ?thesis by simp
qed

subsection \<open>The chunks of a split\<close>

lemma the_chunk_take_drop: "the_chunk lines cs i = take cs (drop (i * cs) lines)"
proof -
  have "min ((i + 1) * cs) (length lines) - i * cs = min cs (length lines - i * cs)"
    by (auto simp: min_def)
  then have "the_chunk lines cs i = take (min cs (length (drop (i * cs) lines))) (drop (i * cs) lines)"
    by (simp add: the_chunk_def)
  then show ?thesis by (simp add: min_def)
qed

lemma length_the_chunk: "length (the_chunk lines cs i) \<le> cs"
  by (simp add: the_chunk_take_drop)

lemma concat_the_chunks: "concat (map (the_chunk lines cs) [0..<n]) = take (n * cs) lines"
proof (induction n)
  case 0
  then show ?case by simp
next
  case (Suc n)
  have "take (n * cs + cs) lines = take (n * cs) lines @ take cs (drop (n * cs) lines)"
    by (rule take_add)
  with Suc show ?case
    by (simp add: the_chunk_take_drop add.commute)
qed

lemma concat_all_chunks:
  assumes "0 < P"
  shows "concat (map (the_chunk lines ((length lines + P - 1) div P)) [0..<P]) = lines"
  using mult_ceil_ge [OF assms, of "length lines"]
  by (simp add: concat_the_chunks)

lemma split_lines_Inr:
  assumes "split_lines bucket prefix lines P st = (Inr urls, st')"
  shows "0 < P"
    and "urls = map (chunk_url bucket prefix) [0..<P]"
    and "\<forall>i<P. i * ((length lines + P - 1) div P) \<le> length lines"
    and "requests st' = requests st @
       map (\<lambda>i. PutObject bucket (chunk_key prefix i)
                  (Join (the_chunk lines ((length lines + P - 1) div P) i) [newline])) [0..<P]"
proof -
  from assms show P: "0 < P"
    by (auto simp: split_lines_def split: if_splits)
  with assms have "split_chunks bucket prefix lines ((length lines + P - 1) div P) [0..<P] [] st = (Inr urls, st')"
    by (simp add: split_lines_def Let_def)
  from split_chunks_Inr [OF this]
  show "urls = map (chunk_url bucket prefix) [0..<P]"
    and "\<forall>i<P. i * ((length lines + P - 1) div P) \<le> length lines"
    and "requests st' = requests st @
       map (\<lambda>i. PutObject bucket (chunk_key prefix i)
                  (Join (the_chunk lines ((length lines + P - 1) div P) i) [newline])) [0..<P]"
    by (simp_all add: list_all_iff)
qed

lemma split_chunks_succeeds:
  "buckets st bucket \<noteq> None \<Longrightarrow> \<forall>k body. \<not> refuses st (PutObject bucket k body) \<Longrightarrow>
   list_all (\<lambda>i. i * cs \<le> length lines) is \<Longrightarrow>
     \<exists>urls' st'. split_chunks bucket prefix lines cs is urls st = (Inr urls', st')"
proof (induction "is" arbitrary: urls st)
  case Nil
  then show ?case by simp
next
  case (Cons i "is")
  from Cons.prems have ls: "chunk_lines lines cs i = Inr (the_chunk lines cs i)"
    by (simp add: chunk_lines_Inr_iff)
  from Cons.prems(1) obtain objs where objs: "buckets st bucket = Some objs" by auto
  let ?body = "Join (the_chunk lines cs i) [newline]"
  let ?st = "st\<lparr>buckets := (buckets st)(bucket \<mapsto> objs(chunk_key prefix i \<mapsto> ?body)),
                requests := requests st @ [PutObject bucket (chunk_key prefix i) ?body]\<rparr>"
  have up: "Upload bucket (chunk_key prefix i) ?body st = (Inr (), ?st)"
    using objs Cons.prems(2) by (simp add: Upload_def Let_def)
  have "buckets ?st bucket \<noteq> None" by simp
  moreover have "\<forall>k body. \<not> refuses ?st (PutObject bucket k body)"
    using Cons.prems(2) by simp
  moreover have "list_all (\<lambda>i. i * cs \<le> length lines) is"
    using Cons.prems(3) by simp
  ultimately have "\<exists>urls' st'. split_chunks bucket prefix lines cs is (urls @ [chunk_url bucket prefix i]) ?st = (Inr urls', st')"
    by (rule Cons.IH)
  then show ?case using ls up by simp
qed

lemma three_parts_in_range:
  assumes "2 \<le> (L::nat)" "i < 3"
  shows "i * ((L + 3 - 1) div 3) \<le> L"
proof -
  have two: "2 * ((L + 2) div 3) \<le> L" using assms(1) by presburger
  from assms(2) have "i \<le> 2" by simp
  then have "i * ((L + 2) div 3) \<le> 2 * ((L + 2) div 3)"
    by (rule mult_le_mono1)
  with two have "i * ((L + 2) div 3) \<le> L" by linarith
  then show ?thesis by simp
qed

lemma split_handler_Inr:
  assumes "split_handler mode q st = (Inr urls, st')"
  obtains bucket key content where
    "mode = ''splitter''"
    "parseS3 (Query q ''input_s3'') = Inr (bucket, key)"
    "object_at st bucket key = Some content"
    "split_lines bucket (Query q ''out_prefix'') (Split content newline) 3
       (st\<lparr>requests := requests st @ [GetObject bucket key]\<rparr>) = (Inr urls, st')"
proof -
  from assms have m: "mode = ''splitter''"
    by (auto simp: split_handler_def split: if_splits)
  from assms m obtain bucket key where p: "parseS3 (Query q ''input_s3'') = Inr (bucket, key)"
    by (auto simp: split_handler_def Let_def split: sum.splits)
  show thesis
  proof (cases rule: Download_cases [of st bucket key])
    case (missing x)
    with assms m p show ?thesis by (simp add: split_handler_def Let_def)
  next
    case (found content)
    with assms m p have "split_lines bucket (Query q ''out_prefix'') (Split content newline) 3
       (st\<lparr>requests := requests st @ [GetObject bucket key]\<rparr>) = (Inr urls, st')"
      by (simp add: split_handler_def Let_def)
    with m p found(2) show ?thesis by (rule that)
  qed
qed

lemma split_handler_succeeds:
  assumes "parseS3 (Query q ''input_s3'') = Inr (bucket, key)"
    and "\<not> refuses st (GetObject bucket key)"
    and "object_at st bucket key = Some content"
    and "\<forall>k body. \<not> refuses st (PutObject bucket k body)"
    and "2 \<le> length (Split content newline)"
  shows "\<exists>urls st'. split_handler ''splitter'' q st = (Inr urls, st')"
proof -
  let ?st = "st\<lparr>requests := requests st @ [GetObject bucket key]\<rparr>"
  let ?lines = "Split content newline"
  from assms(2,3) have dl: "Download bucket key st = (Inr content, ?st)"
    by (cases rule: Download_cases [of st bucket key]) (simp_all add: unreadable_def)
  from assms(3) have b: "buckets ?st bucket \<noteq> None"
    by (auto simp: object_at_def split: option.splits)
  from assms(4) have w: "\<forall>k body. \<not> refuses ?st (PutObject bucket k body)" by simp
  have "list_all (\<lambda>i. i * ((length ?lines + 3 - 1) div 3) \<le> length ?lines) [0..<3]"
    using three_parts_in_range [OF assms(5)] by (simp add: list_all_iff)
  from split_chunks_succeeds [OF b w this]
  show ?thesis using assms(1) dl
    by (simp add: split_handler_def split_lines_def Let_def)
qed

lemma Split_not_Nil: "Split s sep \<noteq> []"
  by (induction s) (auto split: list.splits)

lemma length_Split_one: "length (Split s sep) = Suc 0 \<longleftrightarrow> sep \<notin> set s"
  by (induction s) (auto simp: Split_not_Nil split: list.splits)

lemma split_handler_one_line:
  assumes "parseS3 (Query q ''input_s3'') = Inr (bucket, key)"
    and "object_at st bucket key = Some content"
    and "newline \<notin> set content"
  shows "\<exists>e. fst (split_handler mode q st) = Inl e"
proof (cases "fst (split_handler mode q st)")
  case (Inl e)
  then show ?thesis by simp
next
  case (Inr urls)
  then have "split_handler mode q st = (Inr urls, snd (split_handler mode q st))"
    by (simp add: prod_eq_iff)
  then obtain bucket' key' content' st' where
    p: "parseS3 (Query q ''input_s3'') = Inr (bucket', key')" and
    o: "object_at st bucket' key' = Some content'" and
    s: "split_lines bucket' (Query q ''out_prefix'') (Split content' newline) 3
       (st\<lparr>requests := requests st @ [GetObject bucket' key']\<rparr>) = (Inr urls, st')"
    by (rule split_handler_Inr)
  from p o assms(1,2) have "content' = content" by simp
  with assms(3) have len: "length (Split content' newline) = 1"
    by (simp add: length_Split_one)
  from split_lines_Inr(3) [OF s] have "2 * ((length (Split content' newline) + 3 - 1) div 3) \<le> length (Split content' newline)"
    by simp
  with len show ?thesis by simp
qed

section \<open>Split completeness\<close>

text \<open>
  Claim C5. For a document of \<open>L\<close> lines split into \<open>P\<close> parts, the \<open>P\<close> chunks that a split
  returns have line counts that sum to \<open>L\<close>, each has at most \<open>\<lceil>L / P\<rceil>\<close> lines, they are
  contiguous slices that do not overlap, and their concatenation in index order is the
  line sequence of the document. The chunks are the bodies of the \<open>P\<close> uploads, in index
  order; chunk \<open>i\<close> is the slice from \<open>i * chunkSize\<close> up to \<open>min ((i + 1) * chunkSize) L\<close>,
  which is where chunk \<open>i + 1\<close> starts, and the last slice ends at \<open>L\<close>. A split returns
  whenever the start of the last chunk, \<open>(P - 1) * chunkSize\<close>, lies within the document
  and the store takes the uploads. The handler of \<^verbatim>\<open>/split\<close> runs \<open>split_lines\<close> with 3
  parts.
\<close>

theorem split_completeness:
  "(split_lines bucket prefix lines P st = (Inr urls, st') \<longrightarrow>
      (let L = length lines;
           chunkSize = (L + P - 1) div P;
           chunks = map (the_chunk lines chunkSize) [0..<P]
       in urls = map (chunk_url bucket prefix) [0..<P] \<and>
          requests st' = requests st @
            map (\<lambda>i. PutObject bucket (chunk_key prefix i) (Join (chunks ! i) [newline])) [0..<P] \<and>
          length chunks = P \<and>
          sum_list (map length chunks) = L \<and>
          (\<forall>c \<in> set chunks. int (length c) \<le> \<lceil>real L / real P\<rceil>) \<and>
          concat chunks = lines \<and>
          (\<forall>i<P. i * chunkSize \<le> min ((i + 1) * chunkSize) L \<and>
                chunks ! i = take (min ((i + 1) * chunkSize) L - i * chunkSize) (drop (i * chunkSize) lines)) \<and>
          (\<forall>i. i + 1 < P \<longrightarrow> min ((i + 1) * chunkSize) L = (i + 1) * chunkSize) \<and>
          min (P * chunkSize) L = L)) \<and>
   (0 < P \<and> (P - 1) * ((length lines + P - 1) div P) \<le> length lines \<and>
    buckets st bucket \<noteq> None \<and> (\<forall>k body. \<not> refuses st (PutObject bucket k body)) \<longrightarrow>
      (\<exists>urls st'. split_lines bucket prefix lines P st = (Inr urls, st')))"
proof (intro conjI impI)
  assume ok: "split_lines bucket prefix lines P st = (Inr urls, st')"
  let ?L = "length lines"
  let ?cs = "(?L + P - 1) div P"
  let ?chunks = "map (the_chunk lines ?cs) [0..<P]"
  note r = split_lines_Inr [OF ok]
  have urls: "urls = map (chunk_url bucket prefix) [0..<P]" by (rule r(2))
  have reqs: "requests st' = requests st @
      map (\<lambda>i. PutObject bucket (chunk_key prefix i) (Join (?chunks ! i) [newline])) [0..<P]"
    using r(4) by simp
  have len: "length ?chunks = P" by simp
  have cat: "concat ?chunks = lines" by (rule concat_all_chunks [OF r(1)])
  have "sum_list (map length ?chunks) = length (concat ?chunks)"
    by (simp add: length_concat)
  with cat have total: "sum_list (map length ?chunks) = ?L" by simp
  have ceil: "\<forall>c \<in> set ?chunks. int (length c) \<le> \<lceil>real ?L / real P\<rceil>"
    using length_the_chunk [of lines ?cs] ceiling_chunkSize [OF r(1), of ?L]
    by (auto simp: zle_int [symmetric] simp del: zle_int of_nat_le_iff)
  have sl: "\<forall>i<P. i * ?cs \<le> min ((i + 1) * ?cs) ?L \<and>
      ?chunks ! i = take (min ((i + 1) * ?cs) ?L - i * ?cs) (drop (i * ?cs) lines)"
    using r(3) by (simp add: the_chunk_def)
  have nxt: "\<forall>i. i + 1 < P \<longrightarrow> min ((i + 1) * ?cs) ?L = (i + 1) * ?cs"
    using r(3) by (auto simp: min_def)
  have fin: "min (P * ?cs) ?L = ?L"
    using mult_ceil_ge [OF r(1), of ?L] by (simp add: min_def)
  from urls reqs len total ceil cat sl nxt fin
  show "let L = length lines;
           chunkSize = (L + P - 1) div P;
           chunks = map (the_chunk lines chunkSize) [0..<P]
       in urls = map (chunk_url bucket prefix) [0..<P] \<and>
          requests st' = requests st @
            map (\<lambda>i. PutObject bucket (chunk_key prefix i) (Join (chunks ! i) [newline])) [0..<P] \<and>
          length chunks = P \<and>
          sum_list (map length chunks) = L \<and>
          (\<forall>c \<in> set chunks. int (length c) \<le> \<lceil>real L / real P\<rceil>) \<and>
          concat chunks = lines \<and>
          (\<forall>i<P. i * chunkSize \<le> min ((i + 1) * chunkSize) L \<and>
                chunks ! i = take (min ((i + 1) * chunkSize) L - i * chunkSize) (drop (i * chunkSize) lines)) \<and>
          (\<forall>i. i + 1 < P \<longrightarrow> min ((i + 1) * chunkSize) L = (i + 1) * chunkSize) \<and>
          min (P * chunkSize) L = L"
    unfolding Let_def by blast
next
  assume a: "0 < P \<and> (P - 1) * ((length lines + P - 1) div P) \<le> length lines \<and>
    buckets st bucket \<noteq> None \<and> (\<forall>k body. \<not> refuses st (PutObject bucket k body))"
  let ?cs = "(length lines + P - 1) div P"
  have "i * ?cs \<le> length lines" if "i < P" for i
  proof -
    from that have "i \<le> P - 1" by simp
    then have "i * ?cs \<le> (P - 1) * ?cs" by (rule mult_le_mono1)
    with a show ?thesis by linarith
  qed
  then have "list_all (\<lambda>i. i * ?cs \<le> length lines) [0..<P]"
    by (simp add: list_all_iff)
  with a have "\<exists>urls st'. split_chunks bucket prefix lines ?cs [0..<P] [] st = (Inr urls, st')"
    by (intro split_chunks_succeeds) simp_all
  with a show "\<exists>urls st'. split_lines bucket prefix lines P st = (Inr urls, st')"
    by (simp add: split_lines_def Let_def)
qed

theorem split_completeness_witness:
  "fst (split_lines ''bkt'' ''out/'' [''a'', ''b'', ''c'', ''d''] 3 (store_with ''bkt'' ''doc.txt'' [])) =
     Inr [''s3://bkt/out/chunk-0.txt'', ''s3://bkt/out/chunk-1.txt'', ''s3://bkt/out/chunk-2.txt''] \<and>
   sum_list (map length (map (the_chunk [''a'', ''b'', ''c'', ''d''] 2) [0..<3])) = 4 \<and>
   concat (map (the_chunk [''a'', ''b'', ''c'', ''d''] 2) [0..<3]) = [''a'', ''b'', ''c'', ''d'']"
proof -
  have h: "fst (split_lines ''bkt'' ''out/'' [''a'', ''b'', ''c'', ''d''] 3 (store_with ''bkt'' ''doc.txt'' [])) =
     Inr [''s3://bkt/out/chunk-0.txt'', ''s3://bkt/out/chunk-1.txt'', ''s3://bkt/out/chunk-2.txt'']"
    by code_simp
  then have "split_lines ''bkt'' ''out/'' [''a'', ''b'', ''c'', ''d''] 3 (store_with ''bkt'' ''doc.txt'' []) =
     (Inr [''s3://bkt/out/chunk-0.txt'', ''s3://bkt/out/chunk-1.txt'', ''s3://bkt/out/chunk-2.txt''],
      snd (split_lines ''bkt'' ''out/'' [''a'', ''b'', ''c'', ''d''] 3 (store_with ''bkt'' ''doc.txt'' [])))"
    by (simp add: prod_eq_iff)
  with split_completeness [of "''bkt''" "''out/''" "[''a'', ''b'', ''c'', ''d'']" 3
      "store_with ''bkt'' ''doc.txt'' []"
      "[''s3://bkt/out/chunk-0.txt'', ''s3://bkt/out/chunk-1.txt'', ''s3://bkt/out/chunk-2.txt'']"
      "snd (split_lines ''bkt'' ''out/'' [''a'', ''b'', ''c'', ''d''] 3 (store_with ''bkt'' ''doc.txt'' []))"]
    h show ?thesis
    by (simp add: Let_def)
qed

section \<open>The bucket of the chunks\<close>

lemma parseS3_chunk_url:
  "CHR ''/'' \<notin> set bucket \<Longrightarrow> parseS3 (chunk_url bucket prefix i) = Inr (bucket, chunk_key prefix i)"
  unfolding chunk_url_def by (rule parseS3_address)

lemma object_at_put:
  "buckets st bucket = Some objs \<Longrightarrow>
   object_at (st\<lparr>buckets := (buckets st)(bucket \<mapsto> objs(key \<mapsto> body))\<rparr>) b k =
     (if b = bucket \<and> k = key then Some body else object_at st b k)"
  by (simp add: object_at_def)

lemma split_chunks_objects:
  "split_chunks bucket prefix lines cs is urls st = (Inr urls', st') \<Longrightarrow>
   distinct (map (chunk_key prefix) is) \<Longrightarrow>
     (\<forall>i \<in> set is. object_at st' bucket (chunk_key prefix i) = Some (Join (the_chunk lines cs i) [newline])) \<and>
     (\<forall>b k. b \<noteq> bucket \<or> k \<notin> chunk_key prefix ` set is \<longrightarrow> object_at st' b k = object_at st b k)"
proof (induction "is" arbitrary: urls st)
  case Nil
  then show ?case by simp
next
  case (Cons i "is")
  from Cons.prems(1) obtain ls where ls: "chunk_lines lines cs i = Inr ls"
    by (auto split: sum.splits)
  then have ls': "ls = the_chunk lines cs i"
    by (simp add: chunk_lines_Inr_iff)
  from Cons.prems(2) have d: "distinct (map (chunk_key prefix) is)"
    and n: "chunk_key prefix i \<notin> chunk_key prefix ` set is" by simp_all
  show ?case
  proof (cases rule: Upload_cases [of bucket "chunk_key prefix i" "Join ls [newline]" st])
    case (denied x)
    with Cons.prems(1) ls show ?thesis by simp
  next
    case (stored objs)
    let ?st = "st\<lparr>buckets := (buckets st)(bucket \<mapsto> objs(chunk_key prefix i \<mapsto> Join ls [newline])),
            requests := requests st @ [PutObject bucket (chunk_key prefix i) (Join ls [newline])]\<rparr>"
    from stored Cons.prems(1) ls have
      "split_chunks bucket prefix lines cs is (urls @ [chunk_url bucket prefix i]) ?st = (Inr urls', st')"
      by simp
    from Cons.IH [OF this d] have
      a: "\<forall>j \<in> set is. object_at st' bucket (chunk_key prefix j) = Some (Join (the_chunk lines cs j) [newline])" and
      f: "\<forall>b k. b \<noteq> bucket \<or> k \<notin> chunk_key prefix ` set is \<longrightarrow> object_at st' b k = object_at ?st b k"
      by blast+
    from f n have "object_at st' bucket (chunk_key prefix i) = object_at ?st bucket (chunk_key prefix i)"
      by blast
    then have here: "object_at st' bucket (chunk_key prefix i) = Some (Join (the_chunk lines cs i) [newline])"
      using stored(2) ls' by (simp add: object_at_put)
    have frame: "object_at st' b k = object_at st b k"
      if "b \<noteq> bucket \<or> k \<notin> chunk_key prefix ` set (i # is)" for b k
    proof -
      from that have "b \<noteq> bucket \<or> k \<notin> chunk_key prefix ` set is" by auto
      with f have "object_at st' b k = object_at ?st b k" by blast
      also from that have "\<dots> = object_at st b k"
        using stored(2) by (auto simp: object_at_put)
      finally show ?thesis .
    qed
    from a here frame show ?thesis by auto
  qed
qed

lemma chunk_key_three_distinct: "distinct (map (chunk_key prefix) [0..<3])"
proof -
  have r: "[0..<3] = [0, 1, 2]" by (simp add: upt_rec)
  have "Itoa 0 = ''0''" "Itoa 1 = ''1''" "Itoa 2 = ''2''"
    by code_simp+
  then show ?thesis
    unfolding r by (simp add: chunk_key_def)
qed

text \<open>
  Claim C9. In a successful split call every chunk is uploaded into the bucket of the
  parsed \<^verbatim>\<open>input_s3\<close> and is found there afterwards, every returned address parses back to
  that bucket, and no object of another bucket has changed; the prefix \<^verbatim>\<open>out_prefix\<close> only
  enters the key, so no chunk goes to another bucket than the source document's.
\<close>

theorem split_same_bucket:
  assumes "split_handler mode q st = (Inr urls, st')"
  shows "\<exists>bucket key bodies.
           parseS3 (Query q ''input_s3'') = Inr (bucket, key) \<and>
           length urls = 3 \<and>
           (\<forall>i<3. parseS3 (urls ! i) = Inr (bucket, chunk_key (Query q ''out_prefix'') i)) \<and>
           requests st' = requests st @ GetObject bucket key #
             map (\<lambda>i. PutObject bucket (chunk_key (Query q ''out_prefix'') i) (bodies i)) [0..<3] \<and>
           (\<forall>i<3. object_at st' bucket (chunk_key (Query q ''out_prefix'') i) = Some (bodies i)) \<and>
           (\<forall>b k. b \<noteq> bucket \<longrightarrow> object_at st' b k = object_at st b k)"
proof -
  from assms obtain bucket key content where
    p: "parseS3 (Query q ''input_s3'') = Inr (bucket, key)" and
    s: "split_lines bucket (Query q ''out_prefix'') (Split content newline) 3
       (st\<lparr>requests := requests st @ [GetObject bucket key]\<rparr>) = (Inr urls, st')"
    by (rule split_handler_Inr)
  let ?prefix = "Query q ''out_prefix''"
  let ?lines = "Split content newline"
  let ?st = "st\<lparr>requests := requests st @ [GetObject bucket key]\<rparr>"
  let ?bodies = "\<lambda>i. Join (the_chunk ?lines ((length ?lines + 3 - 1) div 3) i) [newline]"
  from parseS3_Inr(2) [OF p] have nb: "CHR ''/'' \<notin> set bucket" .
  from split_lines_Inr(2) [OF s] have urls: "urls = map (chunk_url bucket ?prefix) [0..<3]" .
  then have len: "length urls = 3" by simp
  from urls have each: "\<forall>i<3. parseS3 (urls ! i) = Inr (bucket, chunk_key ?prefix i)"
    by (simp add: parseS3_chunk_url [OF nb])
  from split_lines_Inr(4) [OF s]
  have reqs: "requests st' = requests st @ GetObject bucket key #
      map (\<lambda>i. PutObject bucket (chunk_key ?prefix i) (?bodies i)) [0..<3]"
    by simp
  from s have "split_chunks bucket ?prefix ?lines ((length ?lines + 3 - 1) div 3) [0..<3] [] ?st = (Inr urls, st')"
    by (simp add: split_lines_def Let_def)
  from split_chunks_objects [OF this chunk_key_three_distinct]
  have objs: "\<forall>i<3. object_at st' bucket (chunk_key ?prefix i) = Some (?bodies i)"
    and frame: "\<forall>b k. b \<noteq> bucket \<longrightarrow> object_at st' b k = object_at st b k"
    by simp_all
  show ?thesis
    apply (rule exI [of _ bucket])
    apply (rule exI [of _ key])
    apply (rule exI [of _ ?bodies])
    using p len each reqs objs frame
    apply simp
    done
qed

theorem split_same_bucket_witness:
  "fst (split_handler ''splitter''
          [(''input_s3'', ''s3://bkt/doc.txt''), (''out_prefix'', ''other/'')]
          (store_with ''bkt'' ''doc.txt'' [CHR ''a'', newline, CHR ''b''])) =
     Inr [''s3://bkt/other/chunk-0.txt'', ''s3://bkt/other/chunk-1.txt'', ''s3://bkt/other/chunk-2.txt''] \<and>
   parseS3 ''s3://bkt/other/chunk-2.txt'' = Inr (''bkt'', chunk_key ''other/'' 2)"
proof -
  let ?q = "[(''input_s3'', ''s3://bkt/doc.txt''), (''out_prefix'', ''other/'')]"
  let ?st = "store_with ''bkt'' ''doc.txt'' [CHR ''a'', newline, CHR ''b'']"
  let ?urls = "[''s3://bkt/other/chunk-0.txt'', ''s3://bkt/other/chunk-1.txt'', ''s3://bkt/other/chunk-2.txt'']"
  have h: "fst (split_handler ''splitter'' ?q ?st) = Inr ?urls"
    by code_simp
  then have "split_handler ''splitter'' ?q ?st = (Inr ?urls, snd (split_handler ''splitter'' ?q ?st))"
    by (simp add: prod_eq_iff)
  from split_same_bucket [OF this] obtain bucket key where
    p: "parseS3 (Query ?q ''input_s3'') = Inr (bucket, key)" and
    e: "\<forall>i<3. parseS3 (?urls ! i) = Inr (bucket, chunk_key (Query ?q ''out_prefix'') i)"
    by blast
  have "parseS3 (Query ?q ''input_s3'') = Inr (''bkt'', ''doc.txt'')"
    by code_simp
  with p have b: "bucket = ''bkt''" by simp
  have o: "Query ?q ''out_prefix'' = ''other/''" by (simp add: Query_def)
  from e [rule_format, of 2]
  have "parseS3 (?urls ! 2) = Inr (bucket, chunk_key (Query ?q ''out_prefix'') 2)"
    by simp
  then have "parseS3 ''s3://bkt/other/chunk-2.txt'' = Inr (''bkt'', chunk_key ''other/'' 2)"
    unfolding b o by simp
  with h show ?thesis by simp
qed

section \<open>Addresses without a separator\<close>

lemma parseS3_no_separator:
  "CHR ''/'' \<notin> set (TrimPrefix addr ''s3://'') \<Longrightarrow> parseS3 addr = Inl SliceBoundsOutOfRange"
  by (simp add: parseS3_Inl_iff)

text \<open>
  Claim C2, as amended. An address with no \<^verbatim>\<open>/\<close> after an optional leading \<^verbatim>\<open>s3://\<close>
  (such as \<^verbatim>\<open>s3://bucket\<close>) makes \<^verbatim>\<open>parseS3\<close> panic. When it is the source address of a
  split call, the chunk address of a map call or the first partial address of a reduce
  call, the call ends with that panic and has sent no request to the store.
\<close>

theorem address_without_separator:
  assumes "CHR ''/'' \<notin> set (TrimPrefix addr ''s3://'')"
  shows "(Query q ''input_s3'' = addr \<longrightarrow>
            split_handler ''splitter'' q st = (Inl (Panic SliceBoundsOutOfRange), st)) \<and>
         (Query q ''chunk_s3'' = addr \<longrightarrow>
            map_handler lib ''mapper'' q st = (Inl (Panic SliceBoundsOutOfRange), st)) \<and>
         (QueryArray q ''in'' = addr # rest \<longrightarrow>
            reduce_handler lib ''reducer'' q st = (Inl (Panic SliceBoundsOutOfRange), st))"
  using parseS3_no_separator [OF assms]
  by (simp add: split_handler_def map_handler_def reduce_handler_def Let_def)

theorem address_without_separator_witness:
  "CHR ''/'' \<notin> set (TrimPrefix ''s3://bucket'' ''s3://'') \<and>
   split_handler ''splitter'' [(''input_s3'', ''s3://bucket''), (''out_prefix'', ''out/'')] empty_store =
     (Inl (Panic SliceBoundsOutOfRange), empty_store) \<and>
   map_handler compact_lib ''mapper'' [(''chunk_s3'', ''s3://bucket''), (''out_s3'', ''s3://bkt/map-0.json'')] empty_store =
     (Inl (Panic SliceBoundsOutOfRange), empty_store) \<and>
   reduce_handler compact_lib ''reducer'' [(''in'', ''s3://bucket''), (''out_s3'', ''s3://bkt/final.json'')] empty_store =
     (Inl (Panic SliceBoundsOutOfRange), empty_store)"
proof -
  have h: "CHR ''/'' \<notin> set (TrimPrefix ''s3://bucket'' ''s3://'')"
    by (simp add: TrimPrefix_def HasPrefix_def)
  have 1: "Query [(''input_s3'', ''s3://bucket''), (''out_prefix'', ''out/'')] ''input_s3'' = ''s3://bucket''"
    by (simp add: Query_def)
  have 2: "Query [(''chunk_s3'', ''s3://bucket''), (''out_s3'', ''s3://bkt/map-0.json'')] ''chunk_s3'' = ''s3://bucket''"
    by (simp add: Query_def)
  have 3: "QueryArray [(''in'', ''s3://bucket''), (''out_s3'', ''s3://bkt/final.json'')] ''in'' = ''s3://bucket'' # []"
    by (simp add: QueryArray_def)
  from address_without_separator [OF h, where q = "[(''input_s3'', ''s3://bucket''), (''out_prefix'', ''out/'')]" and st = empty_store] 1
  have a: "split_handler ''splitter'' [(''input_s3'', ''s3://bucket''), (''out_prefix'', ''out/'')] empty_store =
     (Inl (Panic SliceBoundsOutOfRange), empty_store)" by blast
  from address_without_separator [OF h, where q = "[(''chunk_s3'', ''s3://bucket''), (''out_s3'', ''s3://bkt/map-0.json'')]" and lib = compact_lib and st = empty_store] 2
  have b: "map_handler compact_lib ''mapper'' [(''chunk_s3'', ''s3://bucket''), (''out_s3'', ''s3://bkt/map-0.json'')] empty_store =
     (Inl (Panic SliceBoundsOutOfRange), empty_store)" by blast
  from address_without_separator [OF h, where q = "[(''in'', ''s3://bucket''), (''out_s3'', ''s3://bkt/final.json'')]" and rest = "[]" and lib = compact_lib and st = empty_store] 3
  have c: "reduce_handler compact_lib ''reducer'' [(''in'', ''s3://bucket''), (''out_s3'', ''s3://bkt/final.json'')] empty_store =
     (Inl (Panic SliceBoundsOutOfRange), empty_store)" by blast
  from h a b c show ?thesis by blast
qed

text \<open>
  Claim C2 as stated fails. Its own example \<^verbatim>\<open>s3:/bucket\<close> has a separator for \<^verbatim>\<open>parseS3\<close>:
  the bucket is \<^verbatim>\<open>s3:\<close>, the key \<^verbatim>\<open>bucket\<close>, and the split call goes on to the download,
  which fails with a store error. And a map call whose output address has no separator
  has downloaded the chunk before it panics.
\<close>

theorem address_without_separator_counterexample:
  "parseS3 ''s3:/bucket'' = Inr (''s3:'', ''bucket'') \<and>
   fst (split_handler ''splitter'' [(''input_s3'', ''s3:/bucket''), (''out_prefix'', ''out/'')] empty_store) =
     Inl (StoreIOError NoSuchBucket) \<and>
   requests (snd (split_handler ''splitter'' [(''input_s3'', ''s3:/bucket''), (''out_prefix'', ''out/'')] empty_store)) =
     [GetObject ''s3:'' ''bucket''] \<and>
   fst (map_handler compact_lib ''mapper'' [(''chunk_s3'', ''s3://bkt/chunk-0.txt''), (''out_s3'', ''s3://bkt'')]
          (store_with ''bkt'' ''chunk-0.txt'' ''a b'')) =
     Inl (Panic SliceBoundsOutOfRange) \<and>
   requests (snd (map_handler compact_lib ''mapper'' [(''chunk_s3'', ''s3://bkt/chunk-0.txt''), (''out_s3'', ''s3://bkt'')]
          (store_with ''bkt'' ''chunk-0.txt'' ''a b''))) =
     [GetObject ''bkt'' ''chunk-0.txt'']"
  by code_simp

section \<open>Partials that cannot be read\<close>

lemma reduce_inputs_store:
  "\<exists>gets. snd (reduce_inputs lib inputs tot st) = st\<lparr>requests := requests st @ gets\<rparr> \<and> list_all isGet gets"
proof (induction inputs arbitrary: tot st)
  case Nil
  have "st = st\<lparr>requests := requests st @ []\<rparr>" by simp
  then show ?case by (auto intro: exI [of _ "[]"])
next
  case (Cons inp inputs)
  show ?case
  proof (cases "parseS3 inp")
    case (Inl p)
    have "st = st\<lparr>requests := requests st @ []\<rparr>" by simp
    with Inl show ?thesis by (auto intro: exI [of _ "[]"])
  next
    case (Inr bk)
    obtain bucket key where bk: "bk = (bucket, key)" by (cases bk)
    let ?st = "st\<lparr>requests := requests st @ [GetObject bucket key]\<rparr>"
    show ?thesis
    proof (cases rule: Download_cases [of st bucket key])
      case (missing x)
      with Inr bk show ?thesis
        by (auto simp: isGet_def intro: exI [of _ "[GetObject bucket key]"])
    next
      case (found body)
      from Cons.IH [of "add_counts tot (decode_partial lib body)" ?st]
      obtain gets where
        g: "snd (reduce_inputs lib inputs (add_counts tot (decode_partial lib body)) ?st) =
              ?st\<lparr>requests := requests ?st @ gets\<rparr>" and a: "list_all isGet gets"
        by blast
      have "snd (reduce_inputs lib (inp # inputs) tot st) =
              st\<lparr>requests := requests st @ (GetObject bucket key # gets)\<rparr>"
        using Inr bk found g by simp
      moreover have "list_all isGet (GetObject bucket key # gets)"
        using a by (simp add: isGet_def)
      ultimately show ?thesis by blast
    qed
  qed
qed

lemma reduce_inputs_unreadable:
  "a \<in> set inputs \<Longrightarrow> parseS3 a = Inr (bucket, key) \<Longrightarrow> unreadable st bucket key \<Longrightarrow>
     \<exists>e. fst (reduce_inputs lib inputs tot st) = Inl e \<and>
         (list_all (\<lambda>x. parseS3 x \<noteq> Inl SliceBoundsOutOfRange) inputs \<longrightarrow> (\<exists>x. e = StoreIOError x))"
proof (induction inputs arbitrary: tot st)
  case Nil
  then show ?case by simp
next
  case (Cons inp inputs)
  show ?case
  proof (cases "parseS3 inp")
    case (Inl p)
    then have "p = SliceBoundsOutOfRange" by (simp add: parseS3_Inl_iff)
    with Inl show ?thesis by simp
  next
    case (Inr bk)
    obtain b k where bk: "bk = (b, k)" by (cases bk)
    let ?st = "st\<lparr>requests := requests st @ [GetObject b k]\<rparr>"
    show ?thesis
    proof (cases rule: Download_cases [of st b k])
      case (missing x)
      with Inr bk show ?thesis by simp
    next
      case (found body)
      with Cons.prems Inr bk have "a \<in> set inputs" by (auto simp: unreadable_def)
      moreover from Cons.prems(3) have "unreadable ?st bucket key" by simp
      ultimately obtain e where
        "fst (reduce_inputs lib inputs (add_counts tot (decode_partial lib body)) ?st) = Inl e"
        "list_all (\<lambda>x. parseS3 x \<noteq> Inl SliceBoundsOutOfRange) inputs \<longrightarrow> (\<exists>x. e = StoreIOError x)"
        using Cons.IH [OF _ Cons.prems(2), of ?st "add_counts tot (decode_partial lib body)"] by blast
      with Inr bk found show ?thesis by simp
    qed
  qed
qed

lemma decode_partial_flag [simp]:
  "decode_partial (lib\<lparr>Unmarshal := \<lambda>body. (fst (Unmarshal lib body), flag body)\<rparr>) = decode_partial lib"
  by (simp add: decode_partial_def fun_eq_iff)

lemma reduce_inputs_flag [simp]:
  "reduce_inputs (lib\<lparr>Unmarshal := \<lambda>body. (fst (Unmarshal lib body), flag body)\<rparr>) inputs tot st =
   reduce_inputs lib inputs tot st"
  by (induction inputs arbitrary: tot st) (simp_all split: sum.splits prod.splits)

text \<open>
  Claim C3, as amended. When a partial address of a reduce call parses and names an
  object that cannot be read, the call fails, with a store error if every partial address
  parses (with the panic of \<^verbatim>\<open>parseS3\<close> otherwise), and it has sent only downloads: nothing
  is written. Whether \<^verbatim>\<open>json.Unmarshal\<close> returns an error for a partial changes nothing:
  the call behaves the same under any other error flags.
\<close>

theorem unreadable_partial_aborts:
  "(a \<in> set (QueryArray q ''in'') \<and> parseS3 a = Inr (bucket, key) \<and> unreadable st bucket key \<longrightarrow>
      (\<exists>e gets.
         reduce_handler lib ''reducer'' q st = (Inl e, st\<lparr>requests := requests st @ gets\<rparr>) \<and>
         list_all isGet gets \<and>
         (list_all (\<lambda>x. parseS3 x \<noteq> Inl SliceBoundsOutOfRange) (QueryArray q ''in'') \<longrightarrow>
            (\<exists>x. e = StoreIOError x)))) \<and>
   reduce_handler (lib\<lparr>Unmarshal := \<lambda>body. (fst (Unmarshal lib body), flag body)\<rparr>) mode q st =
     reduce_handler lib mode q st"
proof (intro conjI impI)
  let ?inputs = "QueryArray q ''in''"
  assume "a \<in> set (QueryArray q ''in'') \<and> parseS3 a = Inr (bucket, key) \<and> unreadable st bucket key"
  then have 1: "a \<in> set ?inputs" and 2: "parseS3 a = Inr (bucket, key)" and 3: "unreadable st bucket key"
    by simp_all
  from reduce_inputs_unreadable [OF 1 2 3, of lib "[]"] obtain e where
    e: "fst (reduce_inputs lib ?inputs [] st) = Inl e" and
    k: "list_all (\<lambda>x. parseS3 x \<noteq> Inl SliceBoundsOutOfRange) ?inputs \<longrightarrow> (\<exists>x. e = StoreIOError x)"
    by blast
  from reduce_inputs_store [of lib ?inputs "[]" st] obtain gets where
    g: "snd (reduce_inputs lib ?inputs [] st) = st\<lparr>requests := requests st @ gets\<rparr>" and
    a: "list_all isGet gets"
    by blast
  from e g have "reduce_inputs lib ?inputs [] st = (Inl e, st\<lparr>requests := requests st @ gets\<rparr>)"
    by (simp add: prod_eq_iff)
  then have r: "reduce_handler lib ''reducer'' q st = (Inl e, st\<lparr>requests := requests st @ gets\<rparr>)"
    by (simp add: reduce_handler_def Let_def)
  from r a k show "\<exists>e gets.
         reduce_handler lib ''reducer'' q st = (Inl e, st\<lparr>requests := requests st @ gets\<rparr>) \<and>
         list_all isGet gets \<and>
         (list_all (\<lambda>x. parseS3 x \<noteq> Inl SliceBoundsOutOfRange) (QueryArray q ''in'') \<longrightarrow>
            (\<exists>x. e = StoreIOError x))"
    by blast
next
  show "reduce_handler (lib\<lparr>Unmarshal := \<lambda>body. (fst (Unmarshal lib body), flag body)\<rparr>) mode q st =
     reduce_handler lib mode q st"
    by (simp add: reduce_handler_def Let_def split: prod.splits sum.splits)
qed

theorem unreadable_partial_aborts_witness:
  "''s3://bkt/maps/map-1.json'' \<in> set (QueryArray [(''in'', ''s3://bkt/maps/map-0.json''), (''in'', ''s3://bkt/maps/map-1.json''), (''out_s3'', ''s3://bkt/final.json'')] ''in'') \<and>
   unreadable (store_with ''bkt'' ''maps/map-0.json'' ''{}'') ''bkt'' ''maps/map-1.json'' \<and>
   fst (reduce_handler compact_lib ''reducer''
     [(''in'', ''s3://bkt/maps/map-0.json''), (''in'', ''s3://bkt/maps/map-1.json''), (''out_s3'', ''s3://bkt/final.json'')]
     (store_with ''bkt'' ''maps/map-0.json'' ''{}'')) = Inl (StoreIOError NoSuchKey) \<and>
   buckets (snd (reduce_handler compact_lib ''reducer''
     [(''in'', ''s3://bkt/maps/map-0.json''), (''in'', ''s3://bkt/maps/map-1.json''), (''out_s3'', ''s3://bkt/final.json'')]
     (store_with ''bkt'' ''maps/map-0.json'' ''{}''))) = buckets (store_with ''bkt'' ''maps/map-0.json'' ''{}'')"
proof -
  let ?q = "[(''in'', ''s3://bkt/maps/map-0.json''), (''in'', ''s3://bkt/maps/map-1.json''), (''out_s3'', ''s3://bkt/final.json'')]"
  let ?st = "store_with ''bkt'' ''maps/map-0.json'' ''{}''"
  have 1: "''s3://bkt/maps/map-1.json'' \<in> set (QueryArray ?q ''in'')"
    by (simp add: QueryArray_def)
  have 2: "parseS3 ''s3://bkt/maps/map-1.json'' = Inr (''bkt'', ''maps/map-1.json'')"
    by code_simp
  have 3: "unreadable ?st ''bkt'' ''maps/map-1.json''"
    by (simp add: unreadable_def object_at_def store_with_def)
  have 4: "fst (reduce_handler compact_lib ''reducer'' ?q ?st) = Inl (StoreIOError NoSuchKey)"
    by code_simp
  from unreadable_partial_aborts [of "''s3://bkt/maps/map-1.json''" ?q "''bkt''" "''maps/map-1.json''" ?st compact_lib] 1 2 3
  obtain e gets where
    "reduce_handler compact_lib ''reducer'' ?q ?st = (Inl e, ?st\<lparr>requests := requests ?st @ gets\<rparr>)"
    by blast
  then have "buckets (snd (reduce_handler compact_lib ''reducer'' ?q ?st)) = buckets ?st"
    by simp
  with 1 3 4 show ?thesis by blast
qed

text \<open>
  Claim C3 as stated fails for a partial that cannot be parsed: the bytes \<^verbatim>\<open>oops\<close> make
  \<^verbatim>\<open>Unmarshal\<close> return an error, and the reduce call still answers 200 and writes the total,
  the empty object.
\<close>

theorem unreadable_partial_aborts_counterexample:
  "snd (Unmarshal compact_lib ''oops'') \<and>
   fst (reduce_handler compact_lib ''reducer''
     [(''in'', ''s3://bkt/maps/map-0.json''), (''out_s3'', ''s3://bkt/final.json'')]
     (store_with ''bkt'' ''maps/map-0.json'' ''oops'')) = Inr ''s3://bkt/final.json'' \<and>
   object_at (snd (reduce_handler compact_lib ''reducer''
     [(''in'', ''s3://bkt/maps/map-0.json''), (''out_s3'', ''s3://bkt/final.json'')]
     (store_with ''bkt'' ''maps/map-0.json'' ''oops''))) ''bkt'' ''final.json'' = Some ''{}''"
  by code_simp

section \<open>Counting the words of a chunk\<close>

lemma lookup0_update: "lookup0 (AList.update k v al) k' = (if k' = k then v else lookup0 al k')"
  by (simp add: lookup0_def update_conv')

lemma lookup0_absent: "k \<notin> fst ` set al \<Longrightarrow> lookup0 al k = 0"
  by (simp add: lookup0_def map_of_eq_None_iff [THEN iffD2])

lemma map_of_lookup0:
  "map_of al k = (if k \<in> fst ` set al then Some (lookup0 al k) else None)"
  by (cases "map_of al k") (auto simp: lookup0_def map_of_eq_None_iff dest: map_of_SomeD intro: rev_image_eqI)

lemma count_words_step:
  "distinct (map fst acc) \<Longrightarrow>
     distinct (map fst (foldl (\<lambda>counts w. AList.update w (lookup0 counts w + 1) counts) acc ws)) \<and>
     fst ` set (foldl (\<lambda>counts w. AList.update w (lookup0 counts w + 1) counts) acc ws) = fst ` set acc \<union> set ws \<and>
     (\<forall>k. lookup0 (foldl (\<lambda>counts w. AList.update w (lookup0 counts w + 1) counts) acc ws) k =
            lookup0 acc k + of_nat (count_list ws k))"
proof (induction ws arbitrary: acc)
  case Nil
  then show ?case by simp
next
  case (Cons w ws)
  let ?acc = "AList.update w (lookup0 acc w + 1) acc"
  from Cons.prems have d: "distinct (map fst ?acc)" by (rule distinct_update)
  from Cons.IH [OF d] show ?case
    by (auto simp: dom_update lookup0_update)
qed

lemma count_words_distinct: "distinct (map fst (count_words ws))"
  using count_words_step [of "[]" ws] by (simp add: count_words_def)

lemma count_words_keys: "fst ` set (count_words ws) = set ws"
  using count_words_step [of "[]" ws] by (simp add: count_words_def)

lemma count_words_lookup0: "lookup0 (count_words ws) k = of_nat (count_list ws k)"
  using count_words_step [of "[]" ws] by (simp add: count_words_def lookup0_def)

lemma distinct_alist_snd:
  "distinct (map fst al) \<Longrightarrow> kv \<in> set al \<Longrightarrow> snd kv = lookup0 al (fst kv)"
  by (cases kv) (simp add: lookup0_def)

lemma sum_list_alist:
  assumes "distinct (map fst al)"
  shows "(\<Sum>kv\<leftarrow>al. g (snd kv)) = (\<Sum>k\<in>fst ` set al. g (lookup0 al k))"
proof -
  from assms have d: "distinct al" by (simp add: distinct_map)
  from assms have inj: "inj_on fst (set al)" by (simp add: distinct_map)
  have "(\<Sum>kv\<leftarrow>al. g (snd kv)) = (\<Sum>kv\<in>set al. g (snd kv))"
    using d by (simp add: sum_list_distinct_conv_sum_set)
  also have "\<dots> = (\<Sum>kv\<in>set al. g (lookup0 al (fst kv)))"
    by (rule sum.cong) (simp_all add: distinct_alist_snd [OF assms])
  also have "\<dots> = (\<Sum>k\<in>fst ` set al. g (lookup0 al k))"
    using inj by (simp add: sum.reindex)
  finally show ?thesis .
qed

lemma sint_of_nat_small:
  "n < 2 ^ 63 \<Longrightarrow> sint (of_nat n :: int64) = int n"
  by (simp add: signed_of_nat signed_take_bit_int_eq_self)

lemma length_runs: "length (runs cur s) \<le> length s + (if cur = [] then 0 else 1)"
  by (induction cur s rule: runs.induct) (auto split: if_splits)

lemma length_FindAllString: "length (FindAllString s) \<le> length s"
  using length_runs [of "[]" s] by (simp add: FindAllString_def)

lemma isUpper_code: "isUpper c \<longleftrightarrow> 65 \<le> (of_char c :: nat) \<and> (of_char c :: nat) \<le> 90"
  by (simp add: isUpper_def less_eq_char_def)

lemma of_char_lower_byte: "isUpper c \<Longrightarrow> (of_char (lower_byte c) :: nat) = of_char c + 32"
  by (simp add: lower_byte_def isUpper_code)

lemma isAlnum_lower_byte [simp]: "isAlnum (lower_byte c) = isAlnum c"
proof (cases "isUpper c")
  case True
  then have "(of_char (lower_byte c) :: nat) = of_char c + 32" by (rule of_char_lower_byte)
  with True show ?thesis
    by (simp add: isAlnum_def less_eq_char_def isUpper_code)
next
  case False
  then show ?thesis by (simp add: lower_byte_def)
qed

lemma runs_lower:
  "runs (map lower_byte cur) (map lower_byte s) = map (map lower_byte) (runs cur s)"
  by (induction cur s rule: runs.induct) auto

lemma FindAllString_lower:
  "FindAllString (map lower_byte s) = map (map lower_byte) (FindAllString s)"
  using runs_lower [of "[]" s] by (simp add: FindAllString_def)

lemma sum_sint_count_words:
  assumes "length ws < 2 ^ 63"
  shows "(\<Sum>kv\<leftarrow>count_words ws. sint (snd kv)) = int (length ws)"
proof -
  have small: "count_list ws k < 2 ^ 63" for k
    using count_le_length [of ws k] assms by (rule le_less_trans)
  have "(\<Sum>kv\<leftarrow>count_words ws. sint (snd kv)) = (\<Sum>k\<in>set ws. sint (lookup0 (count_words ws) k))"
    using sum_list_alist [OF count_words_distinct, of sint ws] by (simp add: count_words_keys)
  also have "\<dots> = (\<Sum>k\<in>set ws. int (count_list ws k))"
    by (simp add: count_words_lookup0 sint_of_nat_small [OF small])
  also have "\<dots> = int (\<Sum>k\<in>set ws. count_list ws k)"
    by simp
  also have "\<dots> = int (length ws)"
    by (simp add: sum_count_set)
  finally show ?thesis .
qed

lemma count_words_positive:
  assumes "length ws < 2 ^ 63" and "kv \<in> set (count_words ws)"
  shows "1 \<le> sint (snd kv)"
proof -
  from assms(2) have "fst kv \<in> fst ` set (count_words ws)" by (rule imageI)
  then have in_ws: "fst kv \<in> set ws" by (simp add: count_words_keys)
  then have pos: "1 \<le> count_list ws (fst kv)"
    using count_list_0_iff [of ws "fst kv"] by (cases "count_list ws (fst kv)") simp_all
  have small: "count_list ws (fst kv) < 2 ^ 63"
    using count_le_length [of ws "fst kv"] assms(1) by (rule le_less_trans)
  have "snd kv = of_nat (count_list ws (fst kv))"
    using distinct_alist_snd [OF count_words_distinct assms(2)] by (simp add: count_words_lookup0)
  with pos show ?thesis by (simp add: sint_of_nat_small [OF small])
qed

subsection \<open>The matches of the regular expression are the maximal runs\<close>

lemma pieces_not_Nil: "pieces s \<noteq> []"
  by (induction s) (auto split: list.splits)

lemma runs_pieces:
  "runs cur s = filter (\<lambda>p. p \<noteq> []) ((cur @ hd (pieces s)) # tl (pieces s))"
proof (induction s arbitrary: cur)
  case Nil
  then show ?case by simp
next
  case (Cons c cs)
  obtain p ps where p: "pieces cs = p # ps"
    using pieces_not_Nil [of cs] by (cases "pieces cs") auto
  show ?case
  proof (cases "isAlnum c")
    case True
    with Cons [of "cur @ [c]"] p show ?thesis by simp
  next
    case False
    with Cons [of "[]"] p show ?thesis by simp
  qed
qed

lemma FindAllString_maximal_runs: "FindAllString s = maximal_runs s"
proof -
  obtain p ps where p: "pieces s = p # ps"
    using pieces_not_Nil [of s] by (cases "pieces s") auto
  then show ?thesis
    by (simp add: FindAllString_def maximal_runs_def runs_pieces)
qed

text \<open>
  Claim C6, as amended. The keys of the mapper's CountMap are exactly the distinct
  maximal runs of ASCII letters and digits of the lowered text, that is of what
  \<^verbatim>\<open>strings.ToLower\<close> returns for the whole chunk, each key once; the values sum to the
  number of those runs (a Go string is shorter than \<open>2 ^ 63\<close> bytes). For a chunk of ASCII
  bytes they are the runs of the chunk itself, each lowered.
\<close>

theorem map_token_conservation:
  "fst ` set (map_counts lib text) = set (maximal_runs (ToLower lib text)) \<and>
   distinct (map fst (map_counts lib text)) \<and>
   (length (ToLower lib text) < 2 ^ 63 \<longrightarrow>
      (\<Sum>kv\<leftarrow>map_counts lib text. sint (snd kv)) = int (length (maximal_runs (ToLower lib text)))) \<and>
   (isASCII text \<longrightarrow>
      maximal_runs (ToLower lib text) = map (map lower_byte) (maximal_runs text))"
proof (intro conjI impI)
  show "fst ` set (map_counts lib text) = set (maximal_runs (ToLower lib text))"
    by (simp add: map_counts_def count_words_keys FindAllString_maximal_runs)
  show "distinct (map fst (map_counts lib text))"
    by (simp add: map_counts_def count_words_distinct)
next
  assume "length (ToLower lib text) < 2 ^ 63"
  with length_FindAllString [of "ToLower lib text"]
  have "length (FindAllString (ToLower lib text)) < 2 ^ 63" by (rule le_less_trans)
  then have "(\<Sum>kv\<leftarrow>map_counts lib text. sint (snd kv)) = int (length (FindAllString (ToLower lib text)))"
    unfolding map_counts_def by (rule sum_sint_count_words)
  then show "(\<Sum>kv\<leftarrow>map_counts lib text. sint (snd kv)) = int (length (maximal_runs (ToLower lib text)))"
    by (simp only: FindAllString_maximal_runs)
next
  assume "isASCII text"
  then have "FindAllString (ToLower lib text) = map (map lower_byte) (FindAllString text)"
    by (simp add: ToLower_def FindAllString_lower)
  then show "maximal_runs (ToLower lib text) = map (map lower_byte) (maximal_runs text)"
    by (simp only: FindAllString_maximal_runs)
qed

theorem map_token_conservation_witness:
  "isASCII ''The king. The KING'' \<and>
   length (ToLower compact_lib ''The king. The KING'') < 2 ^ 63 \<and>
   fst ` set (map_counts compact_lib ''The king. The KING'') = {''the'', ''king''} \<and>
   (\<Sum>kv\<leftarrow>map_counts compact_lib ''The king. The KING''. sint (snd kv)) = 4 \<and>
   map (map lower_byte) (maximal_runs ''The king. The KING'') = [''the'', ''king'', ''the'', ''king'']"
proof -
  let ?t = "''The king. The KING''"
  have a: "isASCII ?t" by code_simp
  have low: "ToLower compact_lib ?t = ''the king. the king''" by code_simp
  then have l: "length (ToLower compact_lib ?t) < 2 ^ 63" by simp
  have f: "maximal_runs (ToLower compact_lib ?t) = [''the'', ''king'', ''the'', ''king'']"
    unfolding low by code_simp
  from map_token_conservation [of compact_lib ?t] a l f show ?thesis by auto
qed

text \<open>
  Claim C6 as stated fails on text that is not ASCII. The Kelvin sign (U+212A, bytes
  E2 84 AA) is no ASCII letter, so the chunk that holds only it has no run at all, and
  in \<^verbatim>\<open>a\<close>, Kelvin sign, \<^verbatim>\<open>b\<close> it separates two runs. \<^verbatim>\<open>strings.ToLower\<close> maps it to the
  letter \<^verbatim>\<open>k\<close> before the text is tokenized: the mapper counts the key \<^verbatim>\<open>k\<close> once for the
  first chunk, and the single key \<^verbatim>\<open>akb\<close> once for the second.
\<close>

theorem map_token_conservation_counterexample:
  "maximal_runs [CHR 0xE2, CHR 0x84, CHR 0xAA] = [] \<and>
   map_counts compact_lib [CHR 0xE2, CHR 0x84, CHR 0xAA] = [(''k'', 1)] \<and>
   maximal_runs [CHR ''a'', CHR 0xE2, CHR 0x84, CHR 0xAA, CHR ''b''] = [''a'', ''b''] \<and>
   map_counts compact_lib [CHR ''a'', CHR 0xE2, CHR 0x84, CHR 0xAA, CHR ''b''] = [(''akb'', 1)]"
  by code_simp

lemma map_handler_Inr:
  assumes "map_handler lib mode q st = (Inr out, st')"
  obtains bucket key chunk outBucket outKey objs where
    "parseS3 (Query q ''chunk_s3'') = Inr (bucket, key)"
    "object_at st bucket key = Some chunk"
    "parseS3 (Query q ''out_s3'') = Inr (outBucket, outKey)"
    "buckets st outBucket = Some objs"
    "out = Query q ''out_s3''"
    "st' = st\<lparr>buckets := (buckets st)(outBucket \<mapsto> objs(outKey \<mapsto> Marshal lib (map_counts lib chunk))),
              requests := requests st @ [GetObject bucket key,
                PutObject outBucket outKey (Marshal lib (map_counts lib chunk))]\<rparr>"
proof -
  from assms have m: "mode = ''mapper''"
    by (auto simp: map_handler_def split: if_splits)
  from assms m obtain bucket key where p: "parseS3 (Query q ''chunk_s3'') = Inr (bucket, key)"
    by (auto simp: map_handler_def Let_def split: sum.splits)
  let ?st = "st\<lparr>requests := requests st @ [GetObject bucket key]\<rparr>"
  show thesis
  proof (cases rule: Download_cases [of st bucket key])
    case (missing x)
    with assms m p show ?thesis by (simp add: map_handler_def Let_def)
  next
    case (found chunk)
    let ?js = "Marshal lib (map_counts lib chunk)"
    from assms m p found obtain outBucket outKey where
      o: "parseS3 (Query q ''out_s3'') = Inr (outBucket, outKey)"
      by (auto simp: map_handler_def Let_def split: sum.splits)
    show ?thesis
    proof (cases rule: Upload_cases [of outBucket outKey ?js ?st])
      case denied
      with assms m p found o show ?thesis by (simp add: map_handler_def Let_def)
    next
      case (stored objs)
      with assms m p found o have
        "out = Query q ''out_s3''"
        "st' = st\<lparr>buckets := (buckets st)(outBucket \<mapsto> objs(outKey \<mapsto> ?js)),
              requests := requests st @ [GetObject bucket key, PutObject outBucket outKey ?js]\<rparr>"
        by (auto simp: map_handler_def Let_def)
      with p found(2) o stored(2) show ?thesis by (auto intro: that)
    qed
  qed
qed

text \<open>
  Claim C10. The CountMap that a map call writes has a key exactly for the tokens that
  occur in the (lowered) chunk, and every value in it is at least 1: no zero count is
  written. The object stored at the output address is \<^verbatim>\<open>json.Marshal\<close> of that map.
\<close>

theorem map_counts_positive:
  assumes "map_handler lib mode q st = (Inr out, st')"
  shows "\<exists>bucket key chunk outBucket outKey.
           parseS3 (Query q ''chunk_s3'') = Inr (bucket, key) \<and>
           object_at st bucket key = Some chunk \<and>
           parseS3 (Query q ''out_s3'') = Inr (outBucket, outKey) \<and>
           requests st' = requests st @
             [GetObject bucket key, PutObject outBucket outKey (Marshal lib (map_counts lib chunk))] \<and>
           object_at st' outBucket outKey = Some (Marshal lib (map_counts lib chunk)) \<and>
           (\<forall>k. k \<in> fst ` set (map_counts lib chunk) \<longleftrightarrow> k \<in> set (FindAllString (ToLower lib chunk))) \<and>
           (length (ToLower lib chunk) < 2 ^ 63 \<longrightarrow>
              (\<forall>kv \<in> set (map_counts lib chunk). 1 \<le> sint (snd kv)))"
proof -
  from assms obtain bucket key chunk outBucket outKey objs where
    p: "parseS3 (Query q ''chunk_s3'') = Inr (bucket, key)" and
    t: "object_at st bucket key = Some chunk" and
    o: "parseS3 (Query q ''out_s3'') = Inr (outBucket, outKey)" and
    st': "st' = st\<lparr>buckets := (buckets st)(outBucket \<mapsto> objs(outKey \<mapsto> Marshal lib (map_counts lib chunk))),
              requests := requests st @ [GetObject bucket key,
                PutObject outBucket outKey (Marshal lib (map_counts lib chunk))]\<rparr>"
    by (rule map_handler_Inr)
  from st' have r: "requests st' = requests st @
      [GetObject bucket key, PutObject outBucket outKey (Marshal lib (map_counts lib chunk))]"
    by simp
  from st' have w: "object_at st' outBucket outKey = Some (Marshal lib (map_counts lib chunk))"
    by (simp add: object_at_def)
  have k: "\<forall>k. k \<in> fst ` set (map_counts lib chunk) \<longleftrightarrow> k \<in> set (FindAllString (ToLower lib chunk))"
    by (simp add: map_counts_def count_words_keys)
  have v: "length (ToLower lib chunk) < 2 ^ 63 \<longrightarrow> (\<forall>kv \<in> set (map_counts lib chunk). 1 \<le> sint (snd kv))"
  proof (intro impI ballI)
    fix kv
    assume "length (ToLower lib chunk) < 2 ^ 63" and kv: "kv \<in> set (map_counts lib chunk)"
    with length_FindAllString [of "ToLower lib chunk"]
    have "length (FindAllString (ToLower lib chunk)) < 2 ^ 63" by simp
    with kv show "1 \<le> sint (snd kv)"
      unfolding map_counts_def by (rule count_words_positive [rotated -1])
  qed
  from p t o r w k v show ?thesis by blast
qed

theorem map_counts_positive_witness:
  "fst (map_handler compact_lib ''mapper''
          [(''chunk_s3'', ''s3://bkt/chunk-0.txt''), (''out_s3'', ''s3://bkt/map-0.json'')]
          (store_with ''bkt'' ''chunk-0.txt'' ''Long live the king, the King!'')) = Inr ''s3://bkt/map-0.json'' \<and>
   map_counts compact_lib ''Long live the king, the King!'' = [(''long'', 1), (''live'', 1), (''the'', 2), (''king'', 2)] \<and>
   list_all (\<lambda>kv. 1 \<le> sint (snd kv)) (map_counts compact_lib ''Long live the king, the King!'')"
proof -
  let ?q = "[(''chunk_s3'', ''s3://bkt/chunk-0.txt''), (''out_s3'', ''s3://bkt/map-0.json'')]"
  let ?t = "''Long live the king, the King!''"
  let ?st = "store_with ''bkt'' ''chunk-0.txt'' ?t"
  have h: "fst (map_handler compact_lib ''mapper'' ?q ?st) = Inr ''s3://bkt/map-0.json''"
    by code_simp
  then have "map_handler compact_lib ''mapper'' ?q ?st =
      (Inr ''s3://bkt/map-0.json'', snd (map_handler compact_lib ''mapper'' ?q ?st))"
    by (simp add: prod_eq_iff)
  from map_counts_positive [OF this] obtain bucket key chunk where
    p: "parseS3 (Query ?q ''chunk_s3'') = Inr (bucket, key)" and
    t: "object_at ?st bucket key = Some chunk" and
    v: "length (ToLower compact_lib chunk) < 2 ^ 63 \<longrightarrow> (\<forall>kv \<in> set (map_counts compact_lib chunk). 1 \<le> sint (snd kv))"
    by blast
  have "parseS3 (Query ?q ''chunk_s3'') = Inr (''bkt'', ''chunk-0.txt'')" by code_simp
  with p have "bucket = ''bkt''" "key = ''chunk-0.txt''" by simp_all
  with t have txt_eq: "chunk = ?t" by (simp add: object_at_def store_with_def)
  have "ToLower compact_lib ?t = ''long live the king, the king!''" by code_simp
  then have "length (ToLower compact_lib ?t) < 2 ^ 63" by simp
  with v txt_eq have pos: "list_all (\<lambda>kv. 1 \<le> sint (snd kv)) (map_counts compact_lib ?t)"
    by (simp add: list_all_iff)
  have m: "map_counts compact_lib ?t = [(''long'', 1), (''live'', 1), (''the'', 2), (''king'', 2)]"
    by code_simp
  from h m pos show ?thesis by blast
qed

section \<open>Adding the partials\<close>

lemma lookup0_Cons: "lookup0 (kv # m) k = (if k = fst kv then snd kv else lookup0 m k)"
  by (cases kv) (simp add: lookup0_def)

lemma add_counts_step:
  "distinct (map fst m) \<Longrightarrow>
     fst ` set (add_counts t m) = fst ` set t \<union> fst ` set m \<and>
     (\<forall>k. lookup0 (add_counts t m) k = lookup0 t k + lookup0 m k) \<and>
     (distinct (map fst t) \<longrightarrow> distinct (map fst (add_counts t m)))"
proof (induction m arbitrary: t)
  case Nil
  then show ?case by (simp add: add_counts_def lookup0_def)
next
  case (Cons kv m)
  let ?t = "AList.update (fst kv) (lookup0 t (fst kv) + snd kv) t"
  from Cons.prems have d: "distinct (map fst m)" and n: "fst kv \<notin> fst ` set m" by simp_all
  have unfold: "add_counts t (kv # m) = add_counts ?t m" by (simp add: add_counts_def)
  from n have z: "lookup0 m (fst kv) = 0" by (rule lookup0_absent)
  from Cons.IH [OF d, of ?t] show ?case
    unfolding unfold
    by (auto simp: dom_update lookup0_update lookup0_Cons z distinct_update)
qed

lemma add_counts_keys:
  "distinct (map fst m) \<Longrightarrow> fst ` set (add_counts t m) = fst ` set t \<union> fst ` set m"
  by (simp add: add_counts_step)

lemma add_counts_lookup0:
  "distinct (map fst m) \<Longrightarrow> lookup0 (add_counts t m) k = lookup0 t k + lookup0 m k"
  by (simp add: add_counts_step)

lemma add_counts_distinct:
  "distinct (map fst m) \<Longrightarrow> distinct (map fst t) \<Longrightarrow> distinct (map fst (add_counts t m))"
  by (simp add: add_counts_step)

lemma foldl_add_counts:
  "\<forall>m \<in> set ms. distinct (map fst m) \<Longrightarrow> distinct (map fst t) \<Longrightarrow>
     fst ` set (foldl add_counts t ms) = fst ` set t \<union> (\<Union>m \<in> set ms. fst ` set m) \<and>
     (\<forall>k. lookup0 (foldl add_counts t ms) k = lookup0 t k + (\<Sum>m\<leftarrow>ms. lookup0 m k)) \<and>
     distinct (map fst (foldl add_counts t ms))"
proof (induction ms arbitrary: t)
  case Nil
  then show ?case by simp
next
  case (Cons m ms)
  from Cons.prems have dm: "distinct (map fst m)" and rest: "\<forall>m \<in> set ms. distinct (map fst m)"
    by simp_all
  from dm Cons.prems(2) have dt: "distinct (map fst (add_counts t m))" by (rule add_counts_distinct)
  from Cons.IH [OF rest dt] show ?case
    by (auto simp: add_counts_keys [OF dm] add_counts_lookup0 [OF dm] add.assoc)
qed

lemma reduce_total_keys:
  "\<forall>m \<in> set ms. distinct (map fst m) \<Longrightarrow> fst ` set (reduce_total ms) = (\<Union>m \<in> set ms. fst ` set m)"
  using foldl_add_counts [of ms "[]"] by (simp add: reduce_total_def)

lemma reduce_total_lookup0:
  "\<forall>m \<in> set ms. distinct (map fst m) \<Longrightarrow> lookup0 (reduce_total ms) k = (\<Sum>m\<leftarrow>ms. lookup0 m k)"
  using foldl_add_counts [of ms "[]"] by (simp add: reduce_total_def lookup0_def)

lemma reduce_total_distinct:
  "\<forall>m \<in> set ms. distinct (map fst m) \<Longrightarrow> distinct (map fst (reduce_total ms))"
  using foldl_add_counts [of ms "[]"] by (simp add: reduce_total_def)

lemma reduce_total_map_of:
  assumes "\<forall>m \<in> set ms. distinct (map fst m)"
  shows "map_of (reduce_total ms) k =
     (if \<exists>m \<in> set ms. k \<in> fst ` set m then Some (\<Sum>m\<leftarrow>ms. lookup0 m k) else None)"
  unfolding map_of_lookup0 [of "reduce_total ms" k] reduce_total_keys [OF assms]
    reduce_total_lookup0 [OF assms]
  by simp

lemma sum_list_map_concat:
  fixes f :: "'a \<Rightarrow> int64"
  shows "(\<Sum>x\<leftarrow>concat xss. f x) = (\<Sum>xs\<leftarrow>xss. \<Sum>x\<leftarrow>xs. f x)"
  by (induction xss) simp_all

lemma sum_list_mset_cong:
  fixes f :: "'a \<Rightarrow> int64"
  shows "mset xs = mset ys \<Longrightarrow> (\<Sum>x\<leftarrow>xs. f x) = (\<Sum>x\<leftarrow>ys. f x)"
proof -
  assume "mset xs = mset ys"
  then have "mset (map f xs) = mset (map f ys)" by simp
  then have "sum_mset (mset (map f xs)) = sum_mset (mset (map f ys))" by (rule arg_cong)
  then show ?thesis by (simp only: sum_mset_sum_list)
qed

lemma decode_partial_distinct: "distinct (map fst (decode_partial lib body))"
proof -
  have "distinct (map fst acc) \<Longrightarrow>
      distinct (map fst (foldl (\<lambda>m kv. AList.update (fst kv) (snd kv) m) acc kvs))" for acc kvs
    by (induction kvs arbitrary: acc) (simp_all add: distinct_update)
  from this [of "[]"] show ?thesis by (simp add: decode_partial_def)
qed

lemma Download_fst_requests:
  "fst (Download bucket key (st\<lparr>requests := rs\<rparr>)) = fst (Download bucket key st)"
  by (simp add: Download_def Let_def split: option.splits)

lemma partial_at_requests: "partial_at lib (st\<lparr>requests := rs\<rparr>) inp = partial_at lib st inp"
  by (simp add: partial_at_def Download_fst_requests split: sum.splits prod.splits)

lemma partial_at_distinct: "partial_at lib st inp = Some m \<Longrightarrow> distinct (map fst m)"
  by (auto simp: partial_at_def decode_partial_distinct split: sum.splits)

lemma reduce_inputs_fails:
  assumes "partial_at lib st inp = None"
  shows "\<exists>e. fst (reduce_inputs lib (inp # inputs) tot st) = Inl e"
proof (cases "parseS3 inp")
  case (Inl p)
  then show ?thesis by simp
next
  case (Inr bk)
  obtain bucket key where "bk = (bucket, key)" by (cases bk)
  with Inr have p: "parseS3 inp = Inr (bucket, key)" by simp
  obtain r s where d: "Download bucket key st = (r, s)" by (cases "Download bucket key st")
  from assms p d obtain e where "r = Inl e"
    by (cases r) (simp_all add: partial_at_def)
  with p d show ?thesis by simp
qed

lemma reduce_inputs_step:
  assumes "partial_at lib st inp = Some m" and "parseS3 inp = Inr (bucket, key)"
  shows "reduce_inputs lib (inp # inputs) tot st =
           reduce_inputs lib inputs (add_counts tot m) (snd (Download bucket key st))"
proof -
  obtain r s where d: "Download bucket key st = (r, s)" by (cases "Download bucket key st")
  from assms d obtain body where "r = Inr body" and "decode_partial lib body = m"
    by (cases r) (simp_all add: partial_at_def)
  with assms(2) d show ?thesis by simp
qed

lemma reduce_inputs_fst:
  "fst (reduce_inputs lib inputs tot st) = Inr tot' \<longleftrightarrow>
     (\<forall>inp \<in> set inputs. partial_at lib st inp \<noteq> None) \<and>
     tot' = foldl add_counts tot (map (\<lambda>inp. the (partial_at lib st inp)) inputs)"
proof (induction inputs arbitrary: tot st)
  case Nil
  then show ?case by auto
next
  case (Cons inp inputs)
  show ?case
  proof (cases "partial_at lib st inp")
    case None
    with reduce_inputs_fails [OF None, of inputs tot] show ?thesis by auto
  next
    case (Some m)
    then obtain bucket key where p: "parseS3 inp = Inr (bucket, key)"
      by (auto simp: partial_at_def split: sum.splits)
    let ?st = "snd (Download bucket key st)"
    have st: "?st = st\<lparr>requests := requests st @ [GetObject bucket key]\<rparr>" by (rule Download_store)
    have "reduce_inputs lib (inp # inputs) tot st = reduce_inputs lib inputs (add_counts tot m) ?st"
      using Some p by (rule reduce_inputs_step)
    then show ?thesis
      using Cons.IH [of "add_counts tot m" ?st] Some by (simp add: st partial_at_requests)
  qed
qed

lemma list_all2_Some_the:
  "list_all2 (\<lambda>x y. f x = Some y) xs ys \<Longrightarrow> ys = map (\<lambda>x. the (f x)) xs"
  by (induction xs ys rule: list_all2_induct) simp_all

lemma reduce_handler_Inr:
  assumes "reduce_handler lib mode q st = (Inr out, st')"
  shows "\<exists>tot outBucket outKey.
      fst (reduce_inputs lib (QueryArray q ''in'') [] st) = Inr tot \<and>
      parseS3 (Query q ''out_s3'') = Inr (outBucket, outKey) \<and>
      object_at st' outBucket outKey = Some (Marshal lib tot)"
proof -
  from assms have m: "mode = ''reducer''"
    by (auto simp: reduce_handler_def split: if_splits)
  let ?inputs = "QueryArray q ''in''"
  obtain r st1 where r: "reduce_inputs lib ?inputs [] st = (r, st1)" by (cases "reduce_inputs lib ?inputs [] st")
  with assms m obtain tot where tot: "r = Inr tot"
    by (cases r) (auto simp: reduce_handler_def Let_def)
  from assms m r tot obtain outBucket outKey where
    o: "parseS3 (Query q ''out_s3'') = Inr (outBucket, outKey)"
    by (auto simp: reduce_handler_def Let_def split: sum.splits)
  have "object_at st' outBucket outKey = Some (Marshal lib tot)"
  proof (cases rule: Upload_cases [of outBucket outKey "Marshal lib tot" st1])
    case denied
    with assms m r tot o show ?thesis by (simp add: reduce_handler_def Let_def)
  next
    case (stored objs)
    with assms m r tot o have
      "st' = st1\<lparr>buckets := (buckets st1)(outBucket \<mapsto> objs(outKey \<mapsto> Marshal lib tot)),
                requests := requests st1 @ [PutObject outBucket outKey (Marshal lib tot)]\<rparr>"
      by (auto simp: reduce_handler_def Let_def)
    then show ?thesis by (simp add: object_at_def)
  qed
  moreover from r tot have "fst (reduce_inputs lib ?inputs [] st) = Inr tot" by simp
  ultimately show ?thesis using o by (intro exI conjI)
qed

lemma reduce_total_permute:
  assumes "\<forall>m \<in> set ms. distinct (map fst m)" and p: "mset ms' = mset ms"
  shows "map_of (reduce_total ms') = map_of (reduce_total ms)"
proof
  fix x
  from p have s: "set ms' = set ms" by (rule mset_eq_setD)
  with assms(1) have d': "\<forall>m \<in> set ms'. distinct (map fst m)" by simp
  have "(\<Sum>m\<leftarrow>ms'. lookup0 m x) = (\<Sum>m\<leftarrow>ms. lookup0 m x)"
    using p by (rule sum_list_mset_cong)
  then show "map_of (reduce_total ms') x = map_of (reduce_total ms) x"
    by (simp add: reduce_total_map_of [OF d'] reduce_total_map_of [OF assms(1)] s)
qed

lemma reduce_total_concat:
  assumes "\<forall>m \<in> set ms. distinct (map fst m)" and c: "concat mss = ms"
  shows "map_of (reduce_total (map reduce_total mss)) = map_of (reduce_total ms)"
proof
  fix x
  from assms have each: "\<forall>sub \<in> set mss. \<forall>m \<in> set sub. distinct (map fst m)" by auto
  then have subs: "\<forall>t \<in> set (map reduce_total mss). distinct (map fst t)"
    by (auto intro: reduce_total_distinct)
  have keys: "(\<exists>t \<in> set (map reduce_total mss). x \<in> fst ` set t) \<longleftrightarrow> (\<exists>m \<in> set ms. x \<in> fst ` set m)"
  proof -
    have "(\<exists>t \<in> set (map reduce_total mss). x \<in> fst ` set t) \<longleftrightarrow>
          (\<exists>sub \<in> set mss. x \<in> fst ` set (reduce_total sub))"
      by auto
    also have "\<dots> \<longleftrightarrow> (\<exists>sub \<in> set mss. \<exists>m \<in> set sub. x \<in> fst ` set m)"
      using each by (auto simp: reduce_total_keys)
    also have "\<dots> \<longleftrightarrow> (\<exists>m \<in> set (concat mss). x \<in> fst ` set m)"
      by (simp only: set_concat) blast
    also have "\<dots> \<longleftrightarrow> (\<exists>m \<in> set ms. x \<in> fst ` set m)"
      by (simp only: c)
    finally show ?thesis .
  qed
  have "(\<Sum>t\<leftarrow>map reduce_total mss. lookup0 t x) = (\<Sum>sub\<leftarrow>mss. \<Sum>m\<leftarrow>sub. lookup0 m x)"
    using each by (simp add: comp_def reduce_total_lookup0 cong: map_cong)
  also have "\<dots> = (\<Sum>m\<leftarrow>concat mss. lookup0 m x)"
    by (simp only: sum_list_map_concat)
  finally have sums: "(\<Sum>t\<leftarrow>map reduce_total mss. lookup0 t x) = (\<Sum>m\<leftarrow>ms. lookup0 m x)"
    using c by simp
  show "map_of (reduce_total (map reduce_total mss)) x = map_of (reduce_total ms) x"
    unfolding reduce_total_map_of [OF subs] reduce_total_map_of [OF assms(1)] keys sums ..
qed

lemma sint_sum_list_nonneg:
  fixes ws :: "int64 list"
  assumes "list_all (\<lambda>w. 0 \<le> sint w) ws" and "(\<Sum>w\<leftarrow>ws. sint w) < 2 ^ 63"
  shows "sint (sum_list ws) = (\<Sum>w\<leftarrow>ws. sint w)"
  using assms
proof (induction ws)
  case Nil
  then show ?case by simp
next
  case (Cons w ws)
  from Cons.prems have w: "0 \<le> sint w" and rest: "list_all (\<lambda>w. 0 \<le> sint w) ws" by simp_all
  from rest have nn: "0 \<le> (\<Sum>w\<leftarrow>ws. sint w)"
    by (induction ws) simp_all
  from Cons.prems(2) have b: "sint w + (\<Sum>w\<leftarrow>ws. sint w) < 2 ^ 63" by simp
  with w have "(\<Sum>w\<leftarrow>ws. sint w) < 2 ^ 63" by linarith
  with Cons.IH [OF rest] have ih: "sint (sum_list ws) = (\<Sum>w\<leftarrow>ws. sint w)" by simp
  have "sint (w + sum_list ws) = signed_take_bit 63 (sint w + sint (sum_list ws))"
    by (simp add: sint_word_add)
  also have "\<dots> = sint w + sint (sum_list ws)"
    using w nn b unfolding ih by (intro signed_take_bit_int_eq_self) linarith+
  finally show ?case by (simp add: ih)
qed

lemma sint_sum_lookup0:
  assumes "list_all (\<lambda>m. 0 \<le> sint (lookup0 m k)) ms" and "(\<Sum>m\<leftarrow>ms. sint (lookup0 m k)) < 2 ^ 63"
  shows "sint (\<Sum>m\<leftarrow>ms. lookup0 m k) = (\<Sum>m\<leftarrow>ms. sint (lookup0 m k))"
proof -
  have "list_all (\<lambda>w. 0 \<le> sint w) (map (\<lambda>m. lookup0 m k) ms)"
    using assms(1) by (simp add: list_all_iff)
  moreover have "(\<Sum>w\<leftarrow>map (\<lambda>m. lookup0 m k) ms. sint w) < 2 ^ 63"
    using assms(2) by (simp add: comp_def)
  ultimately have "sint (sum_list (map (\<lambda>m. lookup0 m k) ms)) = (\<Sum>w\<leftarrow>map (\<lambda>m. lookup0 m k) ms. sint w)"
    by (rule sint_sum_list_nonneg)
  then show ?thesis by (simp add: comp_def)
qed

text \<open>
  Claim C7, as amended. Take a call of \<^verbatim>\<open>/reduce\<close> that succeeds, and the partial CountMaps
  that it reads at its input addresses, an address that occurs twice giving its partial
  twice. The total that the call persists has a key exactly when some partial has it, and
  maps it to the sum of the key's values over the partials, the value being 0 in a partial
  without the key. The sum is that of Go's \<^verbatim>\<open>int\<close>, of 64 bits, which wraps around; it is the
  sum of the integers whenever the values are not negative and their sum is below \<open>2 ^ 63\<close>.
  The loop of the call gives the same mapping for any permutation of the input addresses,
  and when the addresses are cut into sub-lists that are folded on their own and the
  sub-totals are folded in turn.
\<close>

theorem reduce_additivity:
  assumes "reduce_handler lib mode q st = (Inr out, st')"
  shows "\<exists>ms tot outBucket outKey.
           list_all2 (\<lambda>inp m. partial_at lib st inp = Some m) (QueryArray q ''in'') ms \<and>
           fst (reduce_inputs lib (QueryArray q ''in'') [] st) = Inr tot \<and>
           parseS3 (Query q ''out_s3'') = Inr (outBucket, outKey) \<and>
           object_at st' outBucket outKey = Some (Marshal lib tot) \<and>
           (\<forall>k. map_of tot k =
                  (if \<exists>m \<in> set ms. k \<in> fst ` set m then Some (\<Sum>m\<leftarrow>ms. lookup0 m k) else None)) \<and>
           (\<forall>k. list_all (\<lambda>m. 0 \<le> sint (lookup0 m k)) ms \<and> (\<Sum>m\<leftarrow>ms. sint (lookup0 m k)) < 2 ^ 63 \<longrightarrow>
                  sint (lookup0 tot k) = (\<Sum>m\<leftarrow>ms. sint (lookup0 m k))) \<and>
           (\<forall>inputs'. mset inputs' = mset (QueryArray q ''in'') \<longrightarrow>
              (\<exists>tot'. fst (reduce_inputs lib inputs' [] st) = Inr tot' \<and> map_of tot' = map_of tot)) \<and>
           (\<forall>iss. concat iss = QueryArray q ''in'' \<longrightarrow>
              (\<exists>subs. list_all2 (\<lambda>is sub. fst (reduce_inputs lib is [] st) = Inr sub) iss subs \<and>
                      map_of (foldl add_counts [] subs) = map_of tot))"
proof -
  let ?inputs = "QueryArray q ''in''"
  let ?f = "\<lambda>inp. the (partial_at lib st inp)"
  let ?ms = "map ?f ?inputs"
  from reduce_handler_Inr [OF assms] obtain tot outBucket outKey where
    r: "fst (reduce_inputs lib ?inputs [] st) = Inr tot" and
    o: "parseS3 (Query q ''out_s3'') = Inr (outBucket, outKey)" and
    w: "object_at st' outBucket outKey = Some (Marshal lib tot)"
    by blast
  from r have ok: "\<forall>inp \<in> set ?inputs. partial_at lib st inp \<noteq> None"
    and tot: "tot = reduce_total ?ms"
    by (simp_all add: reduce_inputs_fst reduce_total_def)
  have l: "list_all2 (\<lambda>inp m. partial_at lib st inp = Some m) ?inputs ?ms"
    using ok by (auto simp: list_all2_map2 list_all2_same)
  have d: "\<forall>m \<in> set ?ms. distinct (map fst m)"
    using ok by (auto intro: partial_at_distinct)
  have a: "\<forall>k. map_of tot k =
      (if \<exists>m \<in> set ?ms. k \<in> fst ` set m then Some (\<Sum>m\<leftarrow>?ms. lookup0 m k) else None)"
    unfolding tot by (simp only: reduce_total_map_of [OF d] simp_thms)
  have b: "\<forall>k. list_all (\<lambda>m. 0 \<le> sint (lookup0 m k)) ?ms \<and> (\<Sum>m\<leftarrow>?ms. sint (lookup0 m k)) < 2 ^ 63 \<longrightarrow>
      sint (lookup0 tot k) = (\<Sum>m\<leftarrow>?ms. sint (lookup0 m k))"
    unfolding tot reduce_total_lookup0 [OF d] by (intro allI impI sint_sum_lookup0) simp_all
  have c: "\<forall>inputs'. mset inputs' = mset ?inputs \<longrightarrow>
      (\<exists>tot'. fst (reduce_inputs lib inputs' [] st) = Inr tot' \<and> map_of tot' = map_of tot)"
  proof (intro allI impI)
    fix inputs'
    assume p: "mset inputs' = mset ?inputs"
    then have s: "set inputs' = set ?inputs" by (rule mset_eq_setD)
    with ok have r': "fst (reduce_inputs lib inputs' [] st) = Inr (reduce_total (map ?f inputs'))"
      by (simp add: reduce_inputs_fst reduce_total_def)
    from p have "mset (map ?f inputs') = mset ?ms" by simp
    then have "map_of (reduce_total (map ?f inputs')) = map_of tot"
      unfolding tot by (rule reduce_total_permute [OF d])
    with r' show "\<exists>tot'. fst (reduce_inputs lib inputs' [] st) = Inr tot' \<and> map_of tot' = map_of tot"
      by (intro exI conjI)
  qed
  have e: "\<forall>iss. concat iss = ?inputs \<longrightarrow>
      (\<exists>subs. list_all2 (\<lambda>is sub. fst (reduce_inputs lib is [] st) = Inr sub) iss subs \<and>
              map_of (foldl add_counts [] subs) = map_of tot)"
  proof (intro allI impI)
    fix iss
    assume c: "concat iss = ?inputs"
    let ?subs = "map (\<lambda>is. reduce_total (map ?f is)) iss"
    have "fst (reduce_inputs lib is [] st) = Inr (reduce_total (map ?f is))" if "is \<in> set iss" for "is"
    proof -
      from that have "set is \<subseteq> set (concat iss)" by auto
      with ok show ?thesis unfolding c by (auto simp: reduce_inputs_fst reduce_total_def)
    qed
    then have l2: "list_all2 (\<lambda>is sub. fst (reduce_inputs lib is [] st) = Inr sub) iss ?subs"
      by (simp add: list_all2_map2 list_all2_same)
    have "concat (map (map ?f) iss) = ?ms"
      unfolding c [symmetric] by (simp add: map_concat)
    then have "map_of (reduce_total (map reduce_total (map (map ?f) iss))) = map_of tot"
      unfolding tot by (rule reduce_total_concat [OF d])
    then have m2: "map_of (foldl add_counts [] ?subs) = map_of tot"
      by (simp only: reduce_total_def map_map comp_def)
    show "\<exists>subs. list_all2 (\<lambda>is sub. fst (reduce_inputs lib is [] st) = Inr sub) iss subs \<and>
              map_of (foldl add_counts [] subs) = map_of tot"
      using l2 m2 by (intro exI [of _ ?subs] conjI)
  qed
  show ?thesis
    apply (rule exI [of _ ?ms])
    apply (rule exI [of _ tot])
    apply (rule exI [of _ outBucket])
    apply (rule exI [of _ outKey])
    apply (intro conjI)
           apply (rule l)
          apply (rule r)
         apply (rule o)
        apply (rule w)
       apply (rule a)
      apply (rule b)
     apply (rule c)
    apply (rule e)
    done
qed

text \<open>
  A call over three addresses, two of them the same: the word \<^verbatim>\<open>the\<close> gets 1 + 3 + 3.
\<close>

theorem reduce_additivity_witness:
  \<open>fst (reduce_handler compact_lib ''reducer''
          [(''in'', ''s3://bkt/a.json''), (''in'', ''s3://bkt/b.json''), (''in'', ''s3://bkt/b.json''),
           (''out_s3'', ''s3://bkt/final.json'')]
          (store_of ''bkt'' [(''a.json'', ''{"the":1,"king":2}''), (''b.json'', ''{"the":3}'')])) =
     Inr ''s3://bkt/final.json'' \<and>
   object_at
     (snd (reduce_handler compact_lib ''reducer''
          [(''in'', ''s3://bkt/a.json''), (''in'', ''s3://bkt/b.json''), (''in'', ''s3://bkt/b.json''),
           (''out_s3'', ''s3://bkt/final.json'')]
          (store_of ''bkt'' [(''a.json'', ''{"the":1,"king":2}''), (''b.json'', ''{"the":3}'')])))
     ''bkt'' ''final.json'' = Some ''{"king":2,"the":7}'' \<and>
   map_of [(''the'', 7 :: int64), (''king'', 2)] ''the'' =
     Some (\<Sum>m\<leftarrow>[[(''the'', 1), (''king'', 2)], [(''the'', 3)], [(''the'', 3)]]. lookup0 m ''the'') \<and>
   (\<exists>tot'. fst (reduce_inputs compact_lib [''s3://bkt/b.json'', ''s3://bkt/a.json'', ''s3://bkt/b.json''] []
                 (store_of ''bkt'' [(''a.json'', ''{"the":1,"king":2}''), (''b.json'', ''{"the":3}'')])) = Inr tot' \<and>
           map_of tot' = map_of [(''the'', 7), (''king'', 2)]) \<and>
   (\<exists>subs. list_all2
             (\<lambda>is sub. fst (reduce_inputs compact_lib is []
                (store_of ''bkt'' [(''a.json'', ''{"the":1,"king":2}''), (''b.json'', ''{"the":3}'')])) = Inr sub)
             [[''s3://bkt/a.json''], [''s3://bkt/b.json'', ''s3://bkt/b.json'']] subs \<and>
           map_of (foldl add_counts [] subs) = map_of [(''the'', 7), (''king'', 2)])\<close>
proof -
  let ?st = \<open>store_of ''bkt'' [(''a.json'', ''{"the":1,"king":2}''), (''b.json'', ''{"the":3}'')]\<close>
  let ?a = "''s3://bkt/a.json''" and ?b = "''s3://bkt/b.json''"
  let ?q = "[(''in'', ?a), (''in'', ?b), (''in'', ?b), (''out_s3'', ''s3://bkt/final.json'')]"
  let ?ma = "[(''the'', 1), (''king'', 2)] :: count_map" and ?mb = "[(''the'', 3)] :: count_map"
  let ?tot = "[(''the'', 7), (''king'', 2)] :: count_map"
  have h: "fst (reduce_handler compact_lib ''reducer'' ?q ?st) = Inr ''s3://bkt/final.json''"
    by code_simp
  then have h': "reduce_handler compact_lib ''reducer'' ?q ?st =
      (Inr ''s3://bkt/final.json'', snd (reduce_handler compact_lib ''reducer'' ?q ?st))"
    by (simp add: prod_eq_iff)
  have qa: "QueryArray ?q ''in'' = [?a, ?b, ?b]" by code_simp
  have qo: "parseS3 (Query ?q ''out_s3'') = Inr (''bkt'', ''final.json'')" by code_simp
  have t: "fst (reduce_inputs compact_lib [?a, ?b, ?b] [] ?st) = Inr ?tot" by code_simp
  have pa: "partial_at compact_lib ?st ?a = Some ?ma" by code_simp
  have pb: "partial_at compact_lib ?st ?b = Some ?mb" by code_simp
  have js: \<open>Marshal compact_lib ?tot = ''{"king":2,"the":7}''\<close> by code_simp
  from reduce_additivity [OF h', unfolded qa qo] obtain ms tot outBucket outKey where
    l: "list_all2 (\<lambda>inp m. partial_at compact_lib ?st inp = Some m) [?a, ?b, ?b] ms" and
    r: "fst (reduce_inputs compact_lib [?a, ?b, ?b] [] ?st) = Inr tot" and
    o: "Inr (''bkt'', ''final.json'') = (Inr (outBucket, outKey) :: panic + string \<times> string)" and
    w: "object_at (snd (reduce_handler compact_lib ''reducer'' ?q ?st)) outBucket outKey =
          Some (Marshal compact_lib tot)" and
    a: "\<forall>k. map_of tot k =
          (if \<exists>m \<in> set ms. k \<in> fst ` set m then Some (\<Sum>m\<leftarrow>ms. lookup0 m k) else None)" and
    c: "\<forall>inputs'. mset inputs' = mset [?a, ?b, ?b] \<longrightarrow>
          (\<exists>tot'. fst (reduce_inputs compact_lib inputs' [] ?st) = Inr tot' \<and> map_of tot' = map_of tot)" and
    e: "\<forall>iss. concat iss = [?a, ?b, ?b] \<longrightarrow>
          (\<exists>subs. list_all2 (\<lambda>is sub. fst (reduce_inputs compact_lib is [] ?st) = Inr sub) iss subs \<and>
                  map_of (foldl add_counts [] subs) = map_of tot)"
    by blast
  from r t have tot: "tot = ?tot" by simp
  from o have ob: "outBucket = ''bkt''" and ok: "outKey = ''final.json''" by simp_all
  from list_all2_Some_the [OF l] pa pb have ms: "ms = [?ma, ?mb, ?mb]" by simp
  have 1: \<open>object_at (snd (reduce_handler compact_lib ''reducer'' ?q ?st)) ''bkt'' ''final.json'' =
      Some ''{"king":2,"the":7}''\<close>
    using w unfolding tot ob ok js .
  have "\<exists>m \<in> set ms. ''the'' \<in> fst ` set m" unfolding ms by simp
  with a have 2: "map_of ?tot ''the'' = Some (\<Sum>m\<leftarrow>[?ma, ?mb, ?mb]. lookup0 m ''the'')"
    unfolding tot ms by (simp only: if_True)
  have "mset [?b, ?a, ?b] = mset [?a, ?b, ?b]" by simp
  with c have 3: "\<exists>tot'. fst (reduce_inputs compact_lib [?b, ?a, ?b] [] ?st) = Inr tot' \<and>
      map_of tot' = map_of ?tot"
    unfolding tot by blast
  have "concat [[?a], [?b, ?b]] = [?a, ?b, ?b]" by simp
  with e have 4: "\<exists>subs. list_all2 (\<lambda>is sub. fst (reduce_inputs compact_lib is [] ?st) = Inr sub)
        [[?a], [?b, ?b]] subs \<and> map_of (foldl add_counts [] subs) = map_of ?tot"
    unfolding tot by blast
  from h 1 2 3 4 show ?thesis by (intro conjI)
qed

text \<open>
  Claim C7 as stated fails where the sum leaves the range of \<^verbatim>\<open>int\<close>: the partial that gives
  \<^verbatim>\<open>a\<close> the value \<open>2 ^ 63 - 1\<close>, read twice, gives the total \<open>- 2\<close> and not the sum
  18446744073709551614 of the two values.
\<close>

theorem reduce_additivity_counterexample:
  \<open>partial_at compact_lib (store_of ''bkt'' [(''p.json'', ''{"a":9223372036854775807}'')]) ''s3://bkt/p.json'' =
     Some [(''a'', 9223372036854775807)] \<and>
   fst (reduce_inputs compact_lib [''s3://bkt/p.json'', ''s3://bkt/p.json''] []
          (store_of ''bkt'' [(''p.json'', ''{"a":9223372036854775807}'')])) = Inr [(''a'', - 2)] \<and>
   fst (reduce_handler compact_lib ''reducer''
          [(''in'', ''s3://bkt/p.json''), (''in'', ''s3://bkt/p.json''), (''out_s3'', ''s3://bkt/final.json'')]
          (store_of ''bkt'' [(''p.json'', ''{"a":9223372036854775807}'')])) = Inr ''s3://bkt/final.json'' \<and>
   object_at
     (snd (reduce_handler compact_lib ''reducer''
          [(''in'', ''s3://bkt/p.json''), (''in'', ''s3://bkt/p.json''), (''out_s3'', ''s3://bkt/final.json'')]
          (store_of ''bkt'' [(''p.json'', ''{"a":9223372036854775807}'')])))
     ''bkt'' ''final.json'' = Some ''{"a":-2}'' \<and>
   sint (lookup0 [(''a'', - 2)] ''a'') = - 2 \<and>
   (\<Sum>m\<leftarrow>[[(''a'', 9223372036854775807)], [(''a'', 9223372036854775807)]]. sint (lookup0 m ''a'')) =
     18446744073709551614\<close>
  by code_simp

section \<open>The part count, and documents of one line\<close>

lemma split_handler_parts_unread:
  "split_handler mode ((''parts'', v) # q) st = split_handler mode q st"
  by (simp add: split_handler_def Query_def)

text \<open>
  Claim C1 against the code. The claim: a split call writes as many chunks as the part
  count the caller supplies. The handler never reads \<^verbatim>\<open>parts\<close> from the query: a request
  with \<^verbatim>\<open>parts=2\<close> for a document of four lines writes and returns three chunks.
\<close>

theorem split_ignores_parts:
  "fst (split_handler ''splitter''
          [(''input_s3'', ''s3://bkt/doc.txt''), (''parts'', ''2''), (''out_prefix'', ''splits/-2/'')]
          (store_with ''bkt'' ''doc.txt'' [CHR ''a'', newline, CHR ''b'', newline, CHR ''c'', newline, CHR ''d''])) =
     Inr [''s3://bkt/splits/-2/chunk-0.txt'', ''s3://bkt/splits/-2/chunk-1.txt'', ''s3://bkt/splits/-2/chunk-2.txt''] \<and>
   requests (snd (split_handler ''splitter''
          [(''input_s3'', ''s3://bkt/doc.txt''), (''parts'', ''2''), (''out_prefix'', ''splits/-2/'')]
          (store_with ''bkt'' ''doc.txt'' [CHR ''a'', newline, CHR ''b'', newline, CHR ''c'', newline, CHR ''d'']))) =
     [GetObject ''bkt'' ''doc.txt'',
      PutObject ''bkt'' ''splits/-2/chunk-0.txt'' [CHR ''a'', newline, CHR ''b''],
      PutObject ''bkt'' ''splits/-2/chunk-1.txt'' [CHR ''c'', newline, CHR ''d''],
      PutObject ''bkt'' ''splits/-2/chunk-2.txt'' []]"
  by code_simp

text \<open>
  Claim C4 against the code. The claim: a split succeeds when the part count exceeds the
  number of lines, with empty trailing chunks. For a document of one line the chunk size
  is 1 and at index 2 the start of the slice, 2, lies beyond its clamped end, 1: the call
  panics after it has uploaded chunk 0 and chunk 1.
\<close>

theorem split_one_line_panics:
  "fst (split_handler ''splitter''
          [(''input_s3'', ''s3://bkt/doc.txt''), (''out_prefix'', ''splits/'')]
          (store_with ''bkt'' ''doc.txt'' ''hello'')) = Inl (Panic SliceBoundsOutOfRange) \<and>
   requests (snd (split_handler ''splitter''
          [(''input_s3'', ''s3://bkt/doc.txt''), (''out_prefix'', ''splits/'')]
          (store_with ''bkt'' ''doc.txt'' ''hello''))) =
     [GetObject ''bkt'' ''doc.txt'',
      PutObject ''bkt'' ''splits/chunk-0.txt'' ''hello'',
      PutObject ''bkt'' ''splits/chunk-1.txt'' []]"
  by code_simp

section \<open>The example run\<close>

text \<open>
  Claim C8, as amended. The text \<^verbatim>\<open>The king. The king is dead. Long live the king!\<close> is one
  line, so of its two chunks chunk 0 is the text and chunk 1 is empty. The call of \<^verbatim>\<open>/map\<close>
  on each of the two chunks and then the call of \<^verbatim>\<open>/reduce\<close> on the two partials all succeed,
  and the final object holds the mapping dead 1, is 1, king 3, live 1, long 1, the 3.
\<close>

theorem end_to_end_example:
  \<open>fst king_map0 = Inr ''s3://bkt/maps/map-0.json'' \<and>
   fst king_map1 = Inr ''s3://bkt/maps/map-1.json'' \<and>
   fst king_reduce = Inr ''s3://bkt/reduce/final.json'' \<and>
   object_at (snd king_reduce) ''bkt'' ''reduce/final.json'' =
     Some ''{"dead":1,"is":1,"king":3,"live":1,"long":1,"the":3}''\<close>
  by code_simp

text \<open>
  Claim C8 as stated fails. The call of \<^verbatim>\<open>/split\<close> on the text, with \<^verbatim>\<open>parts=2\<close> in its query,
  ends in the panic of the slice expression and answers no chunk addresses. The text holds
  the word \<^verbatim>\<open>the\<close> three times, and the final object of the two map calls and the reduce
  call gives it the count 3, not the count 4 of the claim.
\<close>

theorem end_to_end_example_counterexample:
  \<open>fst (split_handler ''splitter''
          [(''input_s3'', ''s3://bkt/doc.txt''), (''parts'', ''2''), (''out_prefix'', ''splits/'')]
          (store_with ''bkt'' ''doc.txt'' king_text)) = Inl (Panic SliceBoundsOutOfRange) \<and>
   count_list (FindAllString (ToLower compact_lib king_text)) ''the'' = 3 \<and>
   object_at (snd king_reduce) ''bkt'' ''reduce/final.json'' \<noteq>
     Some ''{"dead":1,"is":1,"king":3,"live":1,"long":1,"the":4}'' \<and>
   map_option (\<lambda>body. lookup0 (decode_partial compact_lib body) ''the'')
     (object_at (snd king_reduce) ''bkt'' ''reduce/final.json'') = Some 3\<close>
  by code_simp

end
